theory Spec2Isabelle
  imports Complex_Main
begin

section \<open>Arrays\<close>

text \<open>
  A two-dimensional numpy array is a list of rows.  Pixel values are exact
  rationals: every finite floating-point number is one, and the rounding of
  floating-point arithmetic is not modelled.
\<close>

type_synonym image = "rat list list"

datatype error = ValueError | IndexError | LinAlgError | ZeroDivisionError | LibraryError

definition nrows :: "'a list list \<Rightarrow> nat" where
  "nrows a = length a"

definition ncols :: "'a list list \<Rightarrow> nat" where
  "ncols a = (case a of [] \<Rightarrow> 0 | r # _ \<Rightarrow> length r)"

definition shape :: "'a list list \<Rightarrow> nat \<times> nat" where
  "shape a = (nrows a, ncols a)"

text \<open>An image of height \<open>h\<close> and width \<open>w\<close>: a rectangular array with at least one pixel.\<close>

definition is_image :: "nat \<Rightarrow> nat \<Rightarrow> 'a list list \<Rightarrow> bool" where
  "is_image h w a \<longleftrightarrow> 0 < h \<and> 0 < w \<and> length a = h \<and> list_all (\<lambda>r. length r = w) a"

definition zeros :: "nat \<times> nat \<Rightarrow> image" where
  "zeros s = replicate (fst s) (replicate (snd s) 0)"

definition PYRAMID_FILTER :: image where
  "PYRAMID_FILTER = map (map (\<lambda>x. 1 / 256 * x))
     [[1, 4, 6, 4, 1],
      [4, 16, 24, 16, 4],
      [6, 24, 36, 24, 6],
      [4, 16, 24, 16, 4],
      [1, 4, 6, 4, 1]]"

definition X_DERIVATIVE_FILTER :: image where
  "X_DERIVATIVE_FILTER = [[1, 0, -1], [2, 0, -2], [1, 0, -1]]"

definition Y_DERIVATIVE_FILTER :: image where
  "Y_DERIVATIVE_FILTER = transpose X_DERIVATIVE_FILTER"

subsection \<open>\<open>signal.convolve2d(a, k, boundary='symm', mode='same')\<close>\<close>

text \<open>
  The index read for an out-of-range position under symmetric boundary
  extension: \<open>-1\<close> reads \<open>0\<close>, \<open>-2\<close> reads \<open>1\<close>, \<open>n\<close> reads \<open>n - 1\<close>, and so on;
  for an axis shorter than the kernel radius the reflection continues
  periodically.
\<close>

definition symm_index :: "nat \<Rightarrow> int \<Rightarrow> nat" where
  "symm_index n i =
     (let m = i mod (2 * int n) in nat (if m < int n then m else 2 * int n - 1 - m))"

text \<open>
  Two-dimensional convolution, output of the size of the first argument and
  centred on it: \<open>out[i, j] = \<Sum> k[a, b] * ext[i + (kh - 1) div 2 - a, j + (kw - 1) div 2 - b]\<close>.
\<close>

definition convolve2d_symm_same :: "image \<Rightarrow> image \<Rightarrow> image" where
  "convolve2d_symm_same img k =
     (let h = nrows img; w = ncols img; kh = nrows k; kw = ncols k
      in map (\<lambda>i. map (\<lambda>j.
            (\<Sum>a \<leftarrow> [0..<kh]. \<Sum>b \<leftarrow> [0..<kw].
               k ! a ! b *
               img ! symm_index h (int i + int ((kh - 1) div 2) - int a)
                   ! symm_index w (int j + int ((kw - 1) div 2) - int b)))
          [0..<w]) [0..<h])"

subsection \<open>Decimation \<open>a[::2, ::2]\<close>\<close>

fun every_second :: "'a list \<Rightarrow> 'a list" where
  "every_second [] = []"
| "every_second [x] = [x]"
| "every_second (x # y # zs) = x # every_second zs"

definition decimate :: "'a list list \<Rightarrow> 'a list list" where
  "decimate a = every_second (map every_second a)"

section \<open>\<open>build_pyramid\<close>\<close>

fun build_pyramid_loop :: "nat list \<Rightarrow> image list \<Rightarrow> image list" where
  "build_pyramid_loop [] pyramid = pyramid"
| "build_pyramid_loop (level # levels) pyramid =
     (let blur_level = convolve2d_symm_same (pyramid ! level) PYRAMID_FILTER;
          blur_level_sampled = decimate blur_level
      in build_pyramid_loop levels (pyramid @ [blur_level_sampled]))"

definition build_pyramid :: "image \<Rightarrow> nat \<Rightarrow> image list" where
  "build_pyramid img num_levels = build_pyramid_loop [0..<num_levels] [img]"

text \<open>The size of an axis after one decimation: \<open>ceil(n / 2)\<close>.\<close>

definition half_up :: "nat \<Rightarrow> nat" where
  "half_up n = (n + 1) div 2"

subsection \<open>Element-wise arithmetic with broadcasting\<close>

definition broadcastable :: "nat \<times> nat \<Rightarrow> nat \<times> nat \<Rightarrow> bool" where
  "broadcastable s t \<longleftrightarrow>
     (fst s = fst t \<or> fst s = 1 \<or> fst t = 1) \<and> (snd s = snd t \<or> snd s = 1 \<or> snd t = 1)"

definition bdim :: "nat \<Rightarrow> nat \<Rightarrow> nat" where
  "bdim m n = (if m = 1 then n else m)"

definition np_binop :: "(rat \<Rightarrow> rat \<Rightarrow> rat) \<Rightarrow> image \<Rightarrow> image \<Rightarrow> error + image" where
  "np_binop f a b =
     (if broadcastable (shape a) (shape b)
      then Inr (map (\<lambda>i. map (\<lambda>j.
                  f (a ! (if nrows a = 1 then 0 else i) ! (if ncols a = 1 then 0 else j))
                    (b ! (if nrows b = 1 then 0 else i) ! (if ncols b = 1 then 0 else j)))
                [0..<bdim (ncols a) (ncols b)]) [0..<bdim (nrows a) (nrows b)])
      else Inl ValueError)"

subsection \<open>Slices, reshape and small matrices\<close>

definition slice :: "nat \<Rightarrow> nat \<Rightarrow> 'a list \<Rightarrow> 'a list" where
  "slice i j xs = take (j - i) (drop i xs)"

definition window :: "image \<Rightarrow> nat \<Rightarrow> nat \<Rightarrow> nat \<Rightarrow> image" where
  "window a idx_row idx_col boundary =
     map (slice (idx_col - boundary) (idx_col + boundary + 1))
         (slice (idx_row - boundary) (idx_row + boundary + 1) a)"

definition reshape1 :: "nat \<Rightarrow> image \<Rightarrow> error + rat list" where
  "reshape1 n a = (if length (concat a) = n then Inr (concat a) else Inl ValueError)"

definition column_stack :: "rat list \<Rightarrow> rat list \<Rightarrow> image" where
  "column_stack xs ys = map (\<lambda>(x, y). [x, y]) (zip xs ys)"

definition dot :: "rat list \<Rightarrow> rat list \<Rightarrow> rat" where
  "dot xs ys = (\<Sum>(x, y) \<leftarrow> zip xs ys. x * y)"

definition matmul :: "image \<Rightarrow> image \<Rightarrow> image" where
  "matmul A B = map (\<lambda>row. map (\<lambda>col. dot row col) (transpose B)) A"

definition matvec :: "image \<Rightarrow> rat list \<Rightarrow> rat list" where
  "matvec A b = map (\<lambda>row. dot row b) A"

definition mat_neg :: "image \<Rightarrow> image" where
  "mat_neg A = map (map uminus) A"

text \<open>
  \<open>np.linalg.inv\<close> of a two-by-two matrix, in exact arithmetic: the inverse, or
  \<open>LinAlgError\<close> for a matrix without one.  The library works in floating point and
  raises only when its factorisation meets a pivot that is exactly zero; which matrices
  the library rejects is therefore an idealisation here.
\<close>

fun linalg_inv :: "image \<Rightarrow> error + image" where
  "linalg_inv [[a, b], [c, d]] =
     (if a * d - b * c = 0 then Inl LinAlgError
      else Inr [[d / (a * d - b * c), - b / (a * d - b * c)],
                [- c / (a * d - b * c), a / (a * d - b * c)]])"
| "linalg_inv M = Inl LinAlgError"

section \<open>\<open>lucas_kanade_step\<close>\<close>

definition lk_solve :: "rat list \<Rightarrow> rat list \<Rightarrow> rat list \<Rightarrow> rat list" where
  "lk_solve A_Ix A_Iy b =
     (let A = column_stack A_Ix A_Iy
      in case linalg_inv (matmul (transpose A) A) of
           Inl e \<Rightarrow> [0, 0]
         | Inr M \<Rightarrow> matvec (matmul (mat_neg M) (transpose A)) b)"

definition lk_pixel ::
  "image \<Rightarrow> image \<Rightarrow> image \<Rightarrow> nat \<Rightarrow> nat \<Rightarrow> nat \<Rightarrow> nat \<Rightarrow> error + rat list" where
  "lk_pixel Ix Iy It boundary squared_N idx_row idx_col =
     (case reshape1 squared_N (window Ix idx_row idx_col boundary) of
        Inl e \<Rightarrow> Inl e
      | Inr A_Ix \<Rightarrow>
     (case reshape1 squared_N (window Iy idx_row idx_col boundary) of
        Inl e \<Rightarrow> Inl e
      | Inr A_Iy \<Rightarrow>
     (case reshape1 squared_N (window It idx_row idx_col boundary) of
        Inl e \<Rightarrow> Inl e
      | Inr b \<Rightarrow> Inr (lk_solve A_Ix A_Iy b))))"

definition set2d :: "image \<Rightarrow> nat \<Rightarrow> nat \<Rightarrow> rat \<Rightarrow> image" where
  "set2d a i j x = a[i := (a ! i)[j := x]]"

text \<open>
  The two nested loops of \<open>lucas_kanade_step\<close> and of \<open>faster_lucas_kanade_step\<close>
  have the same body; the second guards it with \<open>if corners[idx_row, idx_col] != 0\<close>.
  The guard is the parameter \<open>sel\<close>, which may raise as an array read does.
\<close>

fun lk_cols ::
  "(nat \<Rightarrow> nat \<Rightarrow> error + bool) \<Rightarrow> image \<Rightarrow> image \<Rightarrow> image \<Rightarrow> nat \<Rightarrow> nat \<Rightarrow> nat \<Rightarrow> nat list
     \<Rightarrow> image \<times> image \<Rightarrow> error + image \<times> image" where
  "lk_cols sel Ix Iy It boundary squared_N idx_row [] (du, dv) = Inr (du, dv)"
| "lk_cols sel Ix Iy It boundary squared_N idx_row (idx_col # cols) (du, dv) =
     (case sel idx_row idx_col of
        Inl e \<Rightarrow> Inl e
      | Inr True \<Rightarrow>
          (case lk_pixel Ix Iy It boundary squared_N idx_row idx_col of
             Inl e \<Rightarrow> Inl e
           | Inr x \<Rightarrow>
               lk_cols sel Ix Iy It boundary squared_N idx_row cols
                 (set2d du idx_row idx_col (x ! 0), set2d dv idx_row idx_col (x ! 1)))
      | Inr False \<Rightarrow> lk_cols sel Ix Iy It boundary squared_N idx_row cols (du, dv))"

fun lk_rows ::
  "(nat \<Rightarrow> nat \<Rightarrow> error + bool) \<Rightarrow> image \<Rightarrow> image \<Rightarrow> image \<Rightarrow> nat \<Rightarrow> nat \<Rightarrow> nat list \<Rightarrow> nat list
     \<Rightarrow> image \<times> image \<Rightarrow> error + image \<times> image" where
  "lk_rows sel Ix Iy It boundary squared_N [] cols (du, dv) = Inr (du, dv)"
| "lk_rows sel Ix Iy It boundary squared_N (idx_row # rows) cols (du, dv) =
     (case lk_cols sel Ix Iy It boundary squared_N idx_row cols (du, dv) of
        Inl e \<Rightarrow> Inl e
      | Inr s \<Rightarrow> lk_rows sel Ix Iy It boundary squared_N rows cols s)"

definition lucas_kanade_step :: "image \<Rightarrow> image \<Rightarrow> nat \<Rightarrow> error + image \<times> image" where
  "lucas_kanade_step I1 I2 window_size =
     (let Ix = convolve2d_symm_same I2 X_DERIVATIVE_FILTER;
          Iy = convolve2d_symm_same I2 Y_DERIVATIVE_FILTER
      in case np_binop (-) I2 I1 of
           Inl e \<Rightarrow> Inl e
         | Inr It \<Rightarrow>
             (let du = zeros (shape I1);
                  dv = zeros (shape I1);
                  boundary = window_size div 2;
                  squared_N = window_size ^ 2
              in lk_rows (\<lambda>r c. Inr True) Ix Iy It boundary squared_N
                   [boundary..<nrows I1 - boundary] [boundary..<ncols I1 - boundary] (du, dv)))"

text \<open>The pixels whose whole window lies inside an \<open>h \<times> w\<close> image.\<close>

definition interior :: "nat \<Rightarrow> nat \<Rightarrow> nat \<Rightarrow> nat \<Rightarrow> nat \<Rightarrow> bool" where
  "interior h w boundary r c \<longleftrightarrow>
     boundary \<le> r \<and> r + boundary < h \<and> boundary \<le> c \<and> c + boundary < w"

text \<open>The least-squares solution of the window centred on pixel \<open>(r, c)\<close>.\<close>

definition window_solution :: "image \<Rightarrow> image \<Rightarrow> image \<Rightarrow> nat \<Rightarrow> nat \<Rightarrow> nat \<Rightarrow> rat list" where
  "window_solution Ix Iy It boundary r c =
     lk_solve (concat (window Ix r c boundary)) (concat (window Iy r c boundary))
              (concat (window It r c boundary))"

text \<open>The temporal derivative \<open>I2 - I1\<close> of two images of one shape.\<close>

definition temporal :: "image \<Rightarrow> image \<Rightarrow> image" where
  "temporal I1 I2 =
     map (\<lambda>i. map (\<lambda>j. I2 ! i ! j - I1 ! i ! j) [0..<ncols I1]) [0..<nrows I1]"

definition dense_solution :: "image \<Rightarrow> image \<Rightarrow> nat \<Rightarrow> nat \<Rightarrow> nat \<Rightarrow> rat list" where
  "dense_solution I1 I2 boundary r c =
     window_solution (convolve2d_symm_same I2 X_DERIVATIVE_FILTER)
       (convolve2d_symm_same I2 Y_DERIVATIVE_FILTER) (temporal I1 I2) boundary r c"

section \<open>\<open>faster_lucas_kanade_step\<close>\<close>

definition TH :: rat where
  "TH = 3 / 100"

definition MAX_SHAPE :: nat where
  "MAX_SHAPE = 200"

text \<open>\<open>a.max()\<close>: the largest entry; numpy raises on an array without entries.\<close>

definition array_max :: "image \<Rightarrow> error + rat" where
  "array_max a = (case concat a of [] \<Rightarrow> Inl ValueError | x # xs \<Rightarrow> Inr (fold max xs x))"

text \<open>\<open>corners[corners < TH * corners.max()] = 0\<close>\<close>

definition threshold_corners :: "image \<Rightarrow> error + image" where
  "threshold_corners corners =
     (case array_max corners of
        Inl e \<Rightarrow> Inl e
      | Inr m \<Rightarrow> Inr (map (map (\<lambda>x. if x < TH * m then 0 else x)) corners))"

text \<open>An array read \<open>a[i, j]\<close> with non-negative indices.\<close>

definition get2d :: "image \<Rightarrow> nat \<Rightarrow> nat \<Rightarrow> error + rat" where
  "get2d a i j = (if i < length a \<and> j < length (a ! i) then Inr (a ! i ! j) else Inl IndexError)"

definition corner_guard :: "image \<Rightarrow> nat \<Rightarrow> nat \<Rightarrow> error + bool" where
  "corner_guard corners idx_row idx_col =
     (case get2d corners idx_row idx_col of Inl e \<Rightarrow> Inl e | Inr x \<Rightarrow> Inr (x \<noteq> 0))"

text \<open>
  \<open>cv2.cornerHarris(I2.astype(np.float32), 5, 5, 0.05)\<close> is a library call; it is the
  parameter \<open>cornerHarris\<close>, a map from an image to its corner-response array.
\<close>

definition faster_lucas_kanade_step ::
  "(image \<Rightarrow> image) \<Rightarrow> image \<Rightarrow> image \<Rightarrow> nat \<Rightarrow> error + image \<times> image" where
  "faster_lucas_kanade_step cornerHarris I1 I2 window_size =
     (let du = zeros (shape I1);
          dv = zeros (shape I1)
      in if nrows I1 < MAX_SHAPE \<and> ncols I1 < MAX_SHAPE
         then lucas_kanade_step I1 I2 window_size
         else
           (let Ix = convolve2d_symm_same I2 X_DERIVATIVE_FILTER;
                Iy = convolve2d_symm_same I2 Y_DERIVATIVE_FILTER
            in case np_binop (-) I2 I1 of
                 Inl e \<Rightarrow> Inl e
               | Inr It \<Rightarrow>
                   (let boundary = window_size div 2;
                        squared_N = window_size ^ 2
                    in case threshold_corners (cornerHarris I2) of
                         Inl e \<Rightarrow> Inl e
                       | Inr corners \<Rightarrow>
                           lk_rows (corner_guard corners) Ix Iy It boundary squared_N
                             [boundary..<nrows I1 - boundary] [boundary..<ncols I1 - boundary]
                             (du, dv))))"

section \<open>\<open>warp_image\<close>\<close>

text \<open>
  \<open>cv2.resize(src, (width, height))\<close> and \<open>scipy.interpolate.griddata\<close> are
  library calls.  They are parameters of the model: a resize returns an array or raises;
  \<open>griddata((xs, ys), values, (xq, yq), fill_value=np.nan)\<close> returns one value for every
  query point, \<open>None\<close> standing for \<open>nan\<close>, or raises.
\<close>

type_synonym resize_fn = "image \<Rightarrow> nat \<times> nat \<Rightarrow> error + image"

type_synonym griddata_fn =
  "rat list \<times> rat list \<Rightarrow> rat list \<Rightarrow> rat list \<times> rat list \<Rightarrow> error + rat option list"

text \<open>\<open>np.meshgrid(x, y)\<close>: both results have one row for every entry of \<open>y\<close>.\<close>

definition meshgrid :: "nat list \<Rightarrow> nat list \<Rightarrow> nat list list \<times> nat list list" where
  "meshgrid x y = (map (\<lambda>_. x) y, map (\<lambda>i. map (\<lambda>_. i) x) y)"

text \<open>The sum of two one-dimensional arrays, with broadcasting of a length-one array.\<close>

definition np_add1 :: "rat list \<Rightarrow> rat list \<Rightarrow> error + rat list" where
  "np_add1 a b =
     (if length a = length b then Inr (map (\<lambda>(x, y). x + y) (zip a b))
      else if length a = 1 then Inr (map (\<lambda>y. hd a + y) b)
      else if length b = 1 then Inr (map (\<lambda>x. x + hd b) a)
      else Inl ValueError)"

fun unflatten :: "nat \<Rightarrow> nat \<Rightarrow> 'a list \<Rightarrow> 'a list list" where
  "unflatten 0 w xs = []"
| "unflatten (Suc h) w xs = take w xs # unflatten h w (drop w xs)"

text \<open>\<open>a.reshape(shape)\<close> of a one-dimensional array.\<close>

definition reshape2 :: "nat \<times> nat \<Rightarrow> 'a list \<Rightarrow> error + 'a list list" where
  "reshape2 s xs =
     (if length xs = fst s * snd s then Inr (unflatten (fst s) (snd s) xs) else Inl ValueError)"

text \<open>Step 1: the displacement fields, resized to the image and scaled.\<close>

definition warp_fields :: "resize_fn \<Rightarrow> image \<Rightarrow> image \<Rightarrow> image \<Rightarrow> error + image \<times> image" where
  "warp_fields resize img u v =
     (if ncols u = 0 \<or> nrows v = 0 then Inl ZeroDivisionError
      else
        (let u_factor = of_nat (ncols img) / of_nat (ncols u);
             v_factor = of_nat (nrows img) / of_nat (nrows v);
             dim = (ncols img, nrows img)
         in case resize u dim of
              Inl e \<Rightarrow> Inl e
            | Inr u1 \<Rightarrow>
                (case resize v dim of
                   Inl e \<Rightarrow> Inl e
                 | Inr v1 \<Rightarrow>
                     Inr (map (map (\<lambda>x. x * u_factor)) u1, map (map (\<lambda>x. x * v_factor)) v1))))"

text \<open>The flattened mesh grid of an image: the data points of the interpolation.\<close>

definition grid_points :: "image \<Rightarrow> rat list \<times> rat list" where
  "grid_points img =
     (let dim = (ncols img, nrows img);
          x = [0..<fst dim];
          y = [0..<snd dim];
          (x_mesh, y_mesh) = meshgrid x y
      in (map of_nat (concat x_mesh), map of_nat (concat y_mesh)))"

text \<open>Step 2, first half: the grid shifted by the fields, the query points.\<close>

definition warp_queries ::
  "resize_fn \<Rightarrow> image \<Rightarrow> image \<Rightarrow> image \<Rightarrow> error + rat list \<times> rat list" where
  "warp_queries resize img u v =
     (case warp_fields resize img u v of
        Inl e \<Rightarrow> Inl e
      | Inr (u2, v2) \<Rightarrow>
          (case np_add1 (fst (grid_points img)) (concat u2) of
             Inl e \<Rightarrow> Inl e
           | Inr x_flattened \<Rightarrow>
               (case np_add1 (snd (grid_points img)) (concat v2) of
                  Inl e \<Rightarrow> Inl e
                | Inr y_flattened \<Rightarrow> Inr (x_flattened, y_flattened))))"

text \<open>Step 2, second half: the interpolated image, undefined outside the hull.\<close>

definition warp_interp ::
  "resize_fn \<Rightarrow> griddata_fn \<Rightarrow> image \<Rightarrow> image \<Rightarrow> image \<Rightarrow> error + rat option list list" where
  "warp_interp resize griddata img u v =
     (case warp_queries resize img u v of
        Inl e \<Rightarrow> Inl e
      | Inr q \<Rightarrow>
          (let flattened_image = concat img
           in case griddata (grid_points img) flattened_image q of
                Inl e \<Rightarrow> Inl e
              | Inr out \<Rightarrow> reshape2 (shape img) out))"

text \<open>Step 3: \<open>image_warp[np.isnan(image_warp)] = image[np.isnan(image_warp)]\<close>.\<close>

definition fill_nan :: "rat option list list \<Rightarrow> image \<Rightarrow> image" where
  "fill_nan image_warp img =
     map (\<lambda>(ws, ps). map (\<lambda>(x, p). case x of None \<Rightarrow> p | Some y \<Rightarrow> y) (zip ws ps))
         (zip image_warp img)"

definition warp_image :: "resize_fn \<Rightarrow> griddata_fn \<Rightarrow> image \<Rightarrow> image \<Rightarrow> image \<Rightarrow> error + image" where
  "warp_image resize griddata img u v =
     (case warp_interp resize griddata img u v of
        Inl e \<Rightarrow> Inl e
      | Inr image_warp \<Rightarrow> Inr (fill_nan image_warp img))"

text \<open>
  What the proofs assume of the library: resizing an image to a positive size returns an
  image of that size, and the interpolation returns one value for every query point.
\<close>

definition resize_ok :: "resize_fn \<Rightarrow> bool" where
  "resize_ok resize \<longleftrightarrow>
     (\<forall>a h w h' w'. is_image h w a \<and> 0 < h' \<and> 0 < w' \<longrightarrow>
        (\<exists>b. resize a (w', h') = Inr b \<and> is_image h' w' b))"

definition griddata_ok :: "griddata_fn \<Rightarrow> bool" where
  "griddata_ok griddata \<longleftrightarrow>
     (\<forall>xs ys vals xq yq. length xs = length vals \<and> length ys = length vals
         \<and> length xq = length yq \<longrightarrow>
        (\<exists>out. griddata (xs, ys) vals (xq, yq) = Inr out \<and> length out = length xq))"

text \<open>
  Two stand-ins for the library, used to instantiate the parameters at concrete inputs:
  a nearest-neighbour resize, and an interpolation that knows the data points only.
\<close>

definition nearest_resize :: resize_fn where
  "nearest_resize a dsize =
     (if a = [] \<or> ncols a = 0 \<or> fst dsize = 0 \<or> snd dsize = 0 then Inl LibraryError
      else Inr (map (\<lambda>i. map (\<lambda>j. a ! (i * nrows a div snd dsize) ! (j * ncols a div fst dsize))
                      [0..<fst dsize]) [0..<snd dsize]))"

definition lookup_griddata :: griddata_fn where
  "lookup_griddata pts vals q =
     Inr (map (map_of (zip (zip (fst pts) (snd pts)) vals)) (zip (fst q) (snd q)))"

section \<open>\<open>lucas_kanade_optical_flow\<close>\<close>

text \<open>\<open>IMAGE_SIZE\<close>, a (width, height) pair.\<close>

definition IMAGE_SIZE :: "image \<Rightarrow> nat \<Rightarrow> nat \<times> nat" where
  "IMAGE_SIZE I1 num_levels =
     (let h_factor = (nrows I1 + 2 ^ num_levels - 1) div 2 ^ num_levels;
          w_factor = (ncols I1 + 2 ^ num_levels - 1) div 2 ^ num_levels
      in (w_factor * 2 ^ num_levels, h_factor * 2 ^ num_levels))"

text \<open>\<open>if I.shape != IMAGE_SIZE: I = cv2.resize(I, IMAGE_SIZE)\<close>\<close>

definition resize_unless_sized :: "resize_fn \<Rightarrow> image \<Rightarrow> nat \<times> nat \<Rightarrow> error + image" where
  "resize_unless_sized resize I target = (if shape I \<noteq> target then resize I target else Inr I)"

fun lk_iterations ::
  "resize_fn \<Rightarrow> griddata_fn \<Rightarrow> image \<Rightarrow> image \<Rightarrow> nat \<Rightarrow> nat
     \<Rightarrow> image \<times> image \<times> image \<Rightarrow> error + image \<times> image \<times> image" where
  "lk_iterations resize griddata I1_level I2_level window_size 0 (u, v, cur_I2) =
     Inr (u, v, cur_I2)"
| "lk_iterations resize griddata I1_level I2_level window_size (Suc n) (u, v, cur_I2) =
     (case lucas_kanade_step I1_level cur_I2 window_size of
        Inl e \<Rightarrow> Inl e
      | Inr (du, dv) \<Rightarrow>
          (case np_binop (+) u du of
             Inl e \<Rightarrow> Inl e
           | Inr u' \<Rightarrow>
               (case np_binop (+) v dv of
                  Inl e \<Rightarrow> Inl e
                | Inr v' \<Rightarrow>
                    (case warp_image resize griddata I2_level u' v' of
                       Inl e \<Rightarrow> Inl e
                     | Inr cur_I2' \<Rightarrow>
                         lk_iterations resize griddata I1_level I2_level window_size n
                           (u', v', cur_I2')))))"

fun flow_levels ::
  "resize_fn \<Rightarrow> griddata_fn \<Rightarrow> image list \<Rightarrow> image list \<Rightarrow> nat \<Rightarrow> nat \<Rightarrow> nat list
     \<Rightarrow> image \<times> image \<Rightarrow> error + image \<times> image" where
  "flow_levels resize griddata pyramid_I1 pyarmid_I2 window_size max_iter [] (u, v) = Inr (u, v)"
| "flow_levels resize griddata pyramid_I1 pyarmid_I2 window_size max_iter
     (pyramid_level # levels) (u, v) =
     (case warp_image resize griddata (pyarmid_I2 ! pyramid_level) u v of
        Inl e \<Rightarrow> Inl e
      | Inr cur_I2 \<Rightarrow>
          (case lk_iterations resize griddata (pyramid_I1 ! pyramid_level)
                  (pyarmid_I2 ! pyramid_level) window_size max_iter (u, v, cur_I2) of
             Inl e \<Rightarrow> Inl e
           | Inr (u', v', cur_I2') \<Rightarrow>
               (if pyramid_level \<noteq> 0
                then
                  (let dim = (ncols (pyramid_I1 ! (pyramid_level - 1)),
                              nrows (pyramid_I1 ! (pyramid_level - 1)))
                   in case resize u' dim of
                        Inl e \<Rightarrow> Inl e
                      | Inr ru \<Rightarrow>
                          (case resize v' dim of
                             Inl e \<Rightarrow> Inl e
                           | Inr rv \<Rightarrow>
                               flow_levels resize griddata pyramid_I1 pyarmid_I2 window_size
                                 max_iter levels
                                 (map (map (\<lambda>x. 2 * x)) ru, map (map (\<lambda>x. 2 * x)) rv)))
                else flow_levels resize griddata pyramid_I1 pyarmid_I2 window_size max_iter
                       levels (u', v'))))"

definition lucas_kanade_optical_flow ::
  "resize_fn \<Rightarrow> griddata_fn \<Rightarrow> image \<Rightarrow> image \<Rightarrow> nat \<Rightarrow> nat \<Rightarrow> nat
     \<Rightarrow> error + image \<times> image" where
  "lucas_kanade_optical_flow resize griddata I1 I2 window_size max_iter num_levels =
     (let target = IMAGE_SIZE I1 num_levels
      in case resize_unless_sized resize I1 target of
           Inl e \<Rightarrow> Inl e
         | Inr I1' \<Rightarrow>
             (case resize_unless_sized resize I2 target of
                Inl e \<Rightarrow> Inl e
              | Inr I2' \<Rightarrow>
                  (let pyramid_I1 = build_pyramid I1' num_levels;
                       pyarmid_I2 = build_pyramid I2' num_levels;
                       u = zeros (shape (last pyarmid_I2));
                       v = zeros (shape (last pyarmid_I2))
                   in flow_levels resize griddata pyramid_I1 pyarmid_I2 window_size max_iter
                        (rev [0..<length pyarmid_I2]) (u, v))))"



section \<open>Shapes of the basic operations\<close>

lemma is_image_shape: "is_image h w a \<Longrightarrow> shape a = (h, w)"
  by (cases a) (auto simp: is_image_def shape_def nrows_def ncols_def)

lemma is_image_nrows: "is_image h w a \<Longrightarrow> nrows a = h"
  by (simp add: is_image_def nrows_def)

lemma is_image_ncols: "is_image h w a \<Longrightarrow> ncols a = w"
  using is_image_shape[of h w a] by (simp add: shape_def)

lemma is_image_zeros: "0 < h \<Longrightarrow> 0 < w \<Longrightarrow> is_image h w (zeros (h, w))"
  by (simp add: is_image_def zeros_def list_all_iff)

lemma is_image_convolve2d:
  "is_image h w a \<Longrightarrow> is_image h w (convolve2d_symm_same a k)"
proof -
  assume a: "is_image h w a"
  have "nrows a = h" "ncols a = w"
    using a by (simp_all add: is_image_nrows is_image_ncols)
  with a show ?thesis
    by (simp add: convolve2d_symm_same_def Let_def is_image_def list_all_iff)
qed

lemma length_every_second: "length (every_second xs) = half_up (length xs)"
  by (induction xs rule: every_second.induct) (simp_all add: half_up_def)

lemma is_image_decimate:
  "is_image h w a \<Longrightarrow> is_image (half_up h) (half_up w) (decimate a)"
proof -
  assume a: "is_image h w a"
  have "set (every_second xs) \<subseteq> set xs" for xs :: "'b list"
    by (induction xs rule: every_second.induct) auto
  then have "set (decimate a) \<subseteq> every_second ` set a"
    unfolding decimate_def by (metis list.set_map)
  with a show ?thesis
    by (auto simp: is_image_def list_all_iff length_every_second decimate_def half_up_def)
qed

section \<open>The pyramid\<close>

lemma build_pyramid_loop_append:
  "build_pyramid_loop (xs @ [level]) pyramid =
     (let p = build_pyramid_loop xs pyramid
      in p @ [decimate (convolve2d_symm_same (p ! level) PYRAMID_FILTER)])"
  by (induction xs arbitrary: pyramid) (simp_all add: Let_def)

lemma build_pyramid_Suc:
  "build_pyramid img (Suc n) =
     build_pyramid img n @
       [decimate (convolve2d_symm_same (build_pyramid img n ! n) PYRAMID_FILTER)]"
  by (simp add: build_pyramid_def build_pyramid_loop_append Let_def)

lemma length_build_pyramid: "length (build_pyramid img n) = n + 1"
  by (induction n) (simp_all add: build_pyramid_def build_pyramid_loop_append Let_def)

lemma build_pyramid_nth_stable:
  "k \<le> n \<Longrightarrow> build_pyramid img (n + m) ! k = build_pyramid img n ! k"
  by (induction m) (simp_all add: build_pyramid_Suc nth_append length_build_pyramid)

lemma build_pyramid_0: "build_pyramid img n ! 0 = img"
  using build_pyramid_nth_stable[of 0 0 img n] by (simp add: build_pyramid_def)

lemma build_pyramid_step:
  assumes "k < n"
  shows "build_pyramid img n ! Suc k =
         decimate (convolve2d_symm_same (build_pyramid img n ! k) PYRAMID_FILTER)"
proof -
  obtain m where n: "n = Suc k + m"
    using assms less_iff_Suc_add by auto
  have "build_pyramid img n ! Suc k = build_pyramid img (Suc k) ! Suc k"
    unfolding n by (rule build_pyramid_nth_stable) simp
  also have "\<dots> = decimate (convolve2d_symm_same (build_pyramid img k ! k) PYRAMID_FILTER)"
    by (simp add: build_pyramid_Suc nth_append length_build_pyramid)
  also have "build_pyramid img k ! k = build_pyramid img n ! k"
    using build_pyramid_nth_stable[of k k img "Suc m"] by (simp add: n)
  finally show ?thesis .
qed

lemma is_image_build_pyramid:
  assumes "is_image h w img" and "k \<le> n"
  shows "is_image ((half_up ^^ k) h) ((half_up ^^ k) w) (build_pyramid img n ! k)"
  using assms(2)
proof (induction k)
  case 0
  then show ?case using assms(1) by (simp add: build_pyramid_0)
next
  case (Suc k)
  then have "is_image ((half_up ^^ k) h) ((half_up ^^ k) w) (build_pyramid img n ! k)"
    by simp
  then show ?case
    using Suc.prems by (simp add: build_pyramid_step is_image_decimate is_image_convolve2d)
qed

text \<open>
  C2.  For an image of height \<open>h\<close> and width \<open>w\<close>, \<open>build_pyramid\<close> returns
  \<open>num_levels + 1\<close> arrays; level 0 is the input; every level \<open>k + 1\<close> is the
  decimation (every second row and column from index 0) of the symmetric-boundary,
  same-size convolution of level \<open>k\<close> with the normalised binomial kernel, and its
  height and width are those of level \<open>k\<close> halved and rounded up.
\<close>

theorem build_pyramid_shape_law:
  assumes "is_image h w img"
  shows "length (build_pyramid img num_levels) = num_levels + 1
       \<and> build_pyramid img num_levels ! 0 = img
       \<and> (\<forall>k < num_levels.
            build_pyramid img num_levels ! (k + 1) =
              decimate (convolve2d_symm_same (build_pyramid img num_levels ! k) PYRAMID_FILTER)
          \<and> shape (build_pyramid img num_levels ! (k + 1)) =
              ((nrows (build_pyramid img num_levels ! k) + 1) div 2,
               (ncols (build_pyramid img num_levels ! k) + 1) div 2))"
proof (intro conjI allI impI)
  show "length (build_pyramid img num_levels) = num_levels + 1"
    by (rule length_build_pyramid)
  show "build_pyramid img num_levels ! 0 = img"
    by (rule build_pyramid_0)
next
  fix k assume k: "k < num_levels"
  show "build_pyramid img num_levels ! (k + 1) =
          decimate (convolve2d_symm_same (build_pyramid img num_levels ! k) PYRAMID_FILTER)"
    using build_pyramid_step[OF k] by simp
  have a: "is_image ((half_up ^^ k) h) ((half_up ^^ k) w) (build_pyramid img num_levels ! k)"
    using is_image_build_pyramid[OF assms, of k num_levels] k by simp
  have b: "is_image ((half_up ^^ Suc k) h) ((half_up ^^ Suc k) w)
             (build_pyramid img num_levels ! Suc k)"
    using is_image_build_pyramid[OF assms, of "Suc k" num_levels] k by simp
  show "shape (build_pyramid img num_levels ! (k + 1)) =
          ((nrows (build_pyramid img num_levels ! k) + 1) div 2,
           (ncols (build_pyramid img num_levels ! k) + 1) div 2)"
    using is_image_shape[OF b] is_image_nrows[OF a] is_image_ncols[OF a]
    by (simp add: half_up_def)
qed

theorem build_pyramid_shape_law_witness:
  "length (build_pyramid [[1, 2, 3], [4, 5, 6]] 2) = 3
   \<and> build_pyramid [[1, 2, 3], [4, 5, 6]] 2 ! 0 = [[1, 2, 3], [4, 5, 6]]
   \<and> shape (build_pyramid [[1, 2, 3], [4, 5, 6]] 2 ! 1) = (1, 2)
   \<and> shape (build_pyramid [[1, 2, 3], [4, 5, 6]] 2 ! 2) = (1, 1)"
proof -
  let ?p = "build_pyramid [[1, 2, 3], [4, 5, 6]] 2"
  have i: "is_image 2 3 [[1, 2, 3], [4, 5, 6 :: rat]]"
    by (simp add: is_image_def)
  note t = build_pyramid_shape_law[OF i, of 2]
  have len: "length ?p = 3" and p0: "?p ! 0 = [[1, 2, 3], [4, 5, 6]]"
    using t by simp_all
  have step: "shape (?p ! (k + 1)) = ((nrows (?p ! k) + 1) div 2, (ncols (?p ! k) + 1) div 2)"
    if "k < 2" for k
    using t that by blast
  have s1: "shape (?p ! 1) = (1, 2)"
    using step[of 0] by (simp add: p0 nrows_def ncols_def)
  have s2: "shape (?p ! 2) = (1, 1)"
  proof -
    have nr: "nrows (?p ! 1) = 1" and nc: "ncols (?p ! 1) = 2"
      using s1 by (simp_all add: shape_def)
    have e: "(1::nat) + 1 = 2" by simp
    have "shape (?p ! (1 + 1)) = ((nrows (?p ! 1) + 1) div 2, (ncols (?p ! 1) + 1) div 2)"
      by (rule step) simp
    then have "shape (?p ! 2) = ((1 + 1) div 2, (2 + 1) div 2)"
      by (simp only: e nr nc)
    then show ?thesis by simp
  qed
  show ?thesis using len p0 s1 s2 by blast
qed

section \<open>The Lucas-Kanade loops\<close>

lemma is_image_nth_length: "is_image h w a \<Longrightarrow> i < h \<Longrightarrow> length (a ! i) = w"
  by (simp add: is_image_def list_all_length)

lemma is_image_tabulate:
  "0 < h \<Longrightarrow> 0 < w \<Longrightarrow> is_image h w (map (\<lambda>i. map (g i) [0..<w]) [0..<h])"
  by (simp add: is_image_def list_all_iff)

lemma np_binop_same:
  assumes a: "is_image h w a" and b: "is_image h w b"
  shows "np_binop f a b = Inr (map (\<lambda>i. map (\<lambda>j. f (a ! i ! j) (b ! i ! j)) [0..<w]) [0..<h])"
proof -
  have sa: "shape a = (h, w)" "nrows a = h" "ncols a = w"
    using a by (simp_all add: is_image_shape is_image_nrows is_image_ncols)
  have sb: "shape b = (h, w)" "nrows b = h" "ncols b = w"
    using b by (simp_all add: is_image_shape is_image_nrows is_image_ncols)
  have i0: "(if h = 1 then 0 else i) = i" if "i < h" for i
    using that by auto
  have j0: "(if w = 1 then 0 else j) = j" if "j < w" for j
    using that by auto
  show ?thesis
    unfolding np_binop_def sa sb
    by (simp add: broadcastable_def bdim_def i0 j0 cong: map_cong)
qed

lemma length_concat_const:
  "(\<And>x. x \<in> set xs \<Longrightarrow> length x = n) \<Longrightarrow> length (concat xs) = length xs * n"
  by (induction xs) simp_all

lemma length_concat_window:
  assumes a: "is_image h w a"
    and r: "boundary \<le> r" "r + boundary < h"
    and c: "boundary \<le> c" "c + boundary < w"
  shows "length (concat (window a r c boundary)) = (2 * boundary + 1) ^ 2"
proof -
  let ?rows = "slice (r - boundary) (r + boundary + 1) a"
  have lr: "length ?rows = 2 * boundary + 1"
    using a r by (simp add: slice_def is_image_def)
  have "set ?rows \<subseteq> set a"
    unfolding slice_def by (meson set_drop_subset set_take_subset subset_trans)
  then have rw: "length row = w" if "row \<in> set ?rows" for row
    using a that by (auto simp: is_image_def list_all_iff)
  have "length x = 2 * boundary + 1" if xin: "x \<in> set (window a r c boundary)" for x
  proof -
    obtain row where "row \<in> set ?rows" and x: "x = slice (c - boundary) (c + boundary + 1) row"
      using xin by (auto simp: window_def)
    then have "length row = w" using rw by simp
    then show ?thesis using c by (simp add: x slice_def)
  qed
  then have "length (concat (window a r c boundary))
              = length (window a r c boundary) * (2 * boundary + 1)"
    by (rule length_concat_const)
  also have "length (window a r c boundary) = 2 * boundary + 1"
    using lr by (simp add: window_def)
  finally show ?thesis by (simp add: power2_eq_square)
qed

lemma length_lk_solve: "length (lk_solve A_Ix A_Iy b) = 2"
proof -
  have "length M = 2" if "linalg_inv A = Inr M" for A M
    using that by (induction A rule: linalg_inv.induct) (auto split: if_splits)
  then show ?thesis
    by (auto simp: lk_solve_def Let_def matvec_def matmul_def mat_neg_def split: sum.splits)
qed

lemma lk_pixel_interior:
  assumes "is_image h w Ix" "is_image h w Iy" "is_image h w It"
    and "boundary \<le> r" "r + boundary < h" "boundary \<le> c" "c + boundary < w"
  shows "lk_pixel Ix Iy It boundary ((2 * boundary + 1) ^ 2) r c =
           Inr (lk_solve (concat (window Ix r c boundary)) (concat (window Iy r c boundary))
                         (concat (window It r c boundary)))"
  using assms by (simp add: lk_pixel_def reshape1_def length_concat_window)


lemma is_image_set2d: "is_image h w a \<Longrightarrow> is_image h w (set2d a i j x)"
proof -
  assume a: "is_image h w a"
  have "length (a[i := (a ! i)[j := x]] ! n) = w" if "n < length a" for n
    using a that by (cases "n = i") (simp_all add: is_image_def list_all_length)
  with a show ?thesis
    by (simp add: is_image_def set2d_def list_all_length)
qed

lemma nth_set2d:
  assumes "is_image h w a" "i < h" "j < w"
  shows "set2d a r c x ! i ! j = (if i = r \<and> j = c then x else a ! i ! j)"
proof (cases "i = r")
  case True
  then have "set2d a r c x ! i = (a ! i)[c := x]"
    using assms by (simp add: set2d_def is_image_def)
  moreover have "length (a ! i) = w"
    using assms by (simp add: is_image_def list_all_length)
  ultimately show ?thesis
    using assms True by (cases "j = c") simp_all
next
  case False
  then show ?thesis by (simp add: set2d_def)
qed

lemma lk_cols_char:
  assumes "is_image h w du" "is_image h w dv"
    and "\<And>c. c \<in> set cs \<Longrightarrow> sel r c \<Longrightarrow> lk_pixel Ix Iy It b N r c = Inr (g r c)"
  shows "\<exists>du' dv'. lk_cols (\<lambda>r c. Inr (sel r c)) Ix Iy It b N r cs (du, dv) = Inr (du', dv')
           \<and> is_image h w du' \<and> is_image h w dv'
           \<and> (\<forall>i<h. \<forall>j<w.
                 du' ! i ! j = (if i = r \<and> j \<in> set cs \<and> sel r j then g r j ! 0 else du ! i ! j)
               \<and> dv' ! i ! j = (if i = r \<and> j \<in> set cs \<and> sel r j then g r j ! 1 else dv ! i ! j))"
  using assms
proof (induction cs arbitrary: du dv)
  case Nil
  then show ?case by simp
next
  case (Cons c cs)
  show ?case
  proof (cases "sel r c")
    case False
    have "\<exists>du' dv'. lk_cols (\<lambda>r c. Inr (sel r c)) Ix Iy It b N r cs (du, dv) = Inr (du', dv')
           \<and> is_image h w du' \<and> is_image h w dv'
           \<and> (\<forall>i<h. \<forall>j<w.
                 du' ! i ! j = (if i = r \<and> j \<in> set cs \<and> sel r j then g r j ! 0 else du ! i ! j)
               \<and> dv' ! i ! j = (if i = r \<and> j \<in> set cs \<and> sel r j then g r j ! 1 else dv ! i ! j))"
      using Cons.prems by (intro Cons.IH) simp_all
    then obtain du' dv' where
      run: "lk_cols (\<lambda>r c. Inr (sel r c)) Ix Iy It b N r cs (du, dv) = Inr (du', dv')"
      and im: "is_image h w du'" "is_image h w dv'"
      and px: "\<And>i j. i < h \<Longrightarrow> j < w \<Longrightarrow>
                 du' ! i ! j = (if i = r \<and> j \<in> set cs \<and> sel r j then g r j ! 0 else du ! i ! j)
               \<and> dv' ! i ! j = (if i = r \<and> j \<in> set cs \<and> sel r j then g r j ! 1 else dv ! i ! j)"
      by blast
    have "lk_cols (\<lambda>r c. Inr (sel r c)) Ix Iy It b N r (c # cs) (du, dv) = Inr (du', dv')"
      using False run by simp
    moreover have "\<forall>i<h. \<forall>j<w.
                 du' ! i ! j = (if i = r \<and> j \<in> set (c # cs) \<and> sel r j then g r j ! 0 else du ! i ! j)
               \<and> dv' ! i ! j = (if i = r \<and> j \<in> set (c # cs) \<and> sel r j then g r j ! 1 else dv ! i ! j)"
      using px False by auto
    ultimately show ?thesis using im by blast
  next
    case True
    let ?du1 = "set2d du r c (g r c ! 0)" and ?dv1 = "set2d dv r c (g r c ! 1)"
    have pc: "lk_pixel Ix Iy It b N r c = Inr (g r c)"
      using Cons.prems(3)[of c] True by simp
    have im1: "is_image h w ?du1" "is_image h w ?dv1"
      using Cons.prems by (simp_all add: is_image_set2d)
    have "\<exists>du' dv'. lk_cols (\<lambda>r c. Inr (sel r c)) Ix Iy It b N r cs (?du1, ?dv1) = Inr (du', dv')
           \<and> is_image h w du' \<and> is_image h w dv'
           \<and> (\<forall>i<h. \<forall>j<w.
                 du' ! i ! j = (if i = r \<and> j \<in> set cs \<and> sel r j then g r j ! 0 else ?du1 ! i ! j)
               \<and> dv' ! i ! j = (if i = r \<and> j \<in> set cs \<and> sel r j then g r j ! 1 else ?dv1 ! i ! j))"
      using im1 Cons.prems(3) by (intro Cons.IH) simp_all
    then obtain du' dv' where
      run: "lk_cols (\<lambda>r c. Inr (sel r c)) Ix Iy It b N r cs (?du1, ?dv1) = Inr (du', dv')"
      and im: "is_image h w du'" "is_image h w dv'"
      and px: "\<And>i j. i < h \<Longrightarrow> j < w \<Longrightarrow>
                 du' ! i ! j = (if i = r \<and> j \<in> set cs \<and> sel r j then g r j ! 0 else ?du1 ! i ! j)
               \<and> dv' ! i ! j = (if i = r \<and> j \<in> set cs \<and> sel r j then g r j ! 1 else ?dv1 ! i ! j)"
      by blast
    have "lk_cols (\<lambda>r c. Inr (sel r c)) Ix Iy It b N r (c # cs) (du, dv) = Inr (du', dv')"
      using True pc run by simp
    moreover have "\<forall>i<h. \<forall>j<w.
                 du' ! i ! j = (if i = r \<and> j \<in> set (c # cs) \<and> sel r j then g r j ! 0 else du ! i ! j)
               \<and> dv' ! i ! j = (if i = r \<and> j \<in> set (c # cs) \<and> sel r j then g r j ! 1 else dv ! i ! j)"
      using px True Cons.prems(1,2) by (auto simp: nth_set2d)
    ultimately show ?thesis using im by blast
  qed
qed

lemma lk_rows_char:
  assumes "is_image h w du" "is_image h w dv"
    and "\<And>r c. r \<in> set rs \<Longrightarrow> c \<in> set cs \<Longrightarrow> sel r c \<Longrightarrow>
            lk_pixel Ix Iy It b N r c = Inr (g r c)"
  shows "\<exists>du' dv'. lk_rows (\<lambda>r c. Inr (sel r c)) Ix Iy It b N rs cs (du, dv) = Inr (du', dv')
           \<and> is_image h w du' \<and> is_image h w dv'
           \<and> (\<forall>i<h. \<forall>j<w.
                 du' ! i ! j =
                   (if i \<in> set rs \<and> j \<in> set cs \<and> sel i j then g i j ! 0 else du ! i ! j)
               \<and> dv' ! i ! j =
                   (if i \<in> set rs \<and> j \<in> set cs \<and> sel i j then g i j ! 1 else dv ! i ! j))"
  using assms
proof (induction rs arbitrary: du dv)
  case Nil
  then show ?case by simp
next
  case (Cons r rs)
  obtain du1 dv1 where
    run1: "lk_cols (\<lambda>r c. Inr (sel r c)) Ix Iy It b N r cs (du, dv) = Inr (du1, dv1)"
    and im1: "is_image h w du1" "is_image h w dv1"
    and px1: "\<And>i j. i < h \<Longrightarrow> j < w \<Longrightarrow>
                 du1 ! i ! j = (if i = r \<and> j \<in> set cs \<and> sel r j then g r j ! 0 else du ! i ! j)
               \<and> dv1 ! i ! j = (if i = r \<and> j \<in> set cs \<and> sel r j then g r j ! 1 else dv ! i ! j)"
    using lk_cols_char[of h w du dv cs sel r Ix Iy It b N g] Cons.prems by auto
  have "\<exists>du' dv'. lk_rows (\<lambda>r c. Inr (sel r c)) Ix Iy It b N rs cs (du1, dv1) = Inr (du', dv')
           \<and> is_image h w du' \<and> is_image h w dv'
           \<and> (\<forall>i<h. \<forall>j<w.
                 du' ! i ! j =
                   (if i \<in> set rs \<and> j \<in> set cs \<and> sel i j then g i j ! 0 else du1 ! i ! j)
               \<and> dv' ! i ! j =
                   (if i \<in> set rs \<and> j \<in> set cs \<and> sel i j then g i j ! 1 else dv1 ! i ! j))"
    using im1 Cons.prems(3) by (intro Cons.IH) simp_all
  then obtain du' dv' where
    run: "lk_rows (\<lambda>r c. Inr (sel r c)) Ix Iy It b N rs cs (du1, dv1) = Inr (du', dv')"
    and im: "is_image h w du'" "is_image h w dv'"
    and px: "\<And>i j. i < h \<Longrightarrow> j < w \<Longrightarrow>
                 du' ! i ! j =
                   (if i \<in> set rs \<and> j \<in> set cs \<and> sel i j then g i j ! 0 else du1 ! i ! j)
               \<and> dv' ! i ! j =
                   (if i \<in> set rs \<and> j \<in> set cs \<and> sel i j then g i j ! 1 else dv1 ! i ! j)"
    by blast
  have "lk_rows (\<lambda>r c. Inr (sel r c)) Ix Iy It b N (r # rs) cs (du, dv) = Inr (du', dv')"
    using run1 run by simp
  moreover have "\<forall>i<h. \<forall>j<w.
                 du' ! i ! j =
                   (if i \<in> set (r # rs) \<and> j \<in> set cs \<and> sel i j then g i j ! 0 else du ! i ! j)
               \<and> dv' ! i ! j =
                   (if i \<in> set (r # rs) \<and> j \<in> set cs \<and> sel i j then g i j ! 1 else dv ! i ! j)"
    using px px1 by auto
  ultimately show ?case using im by blast
qed

lemma lk_cols_cong:
  "(\<And>c. c \<in> set cs \<Longrightarrow> sel r c = sel' r c) \<Longrightarrow>
     lk_cols sel Ix Iy It b N r cs s = lk_cols sel' Ix Iy It b N r cs s"
proof (induction cs arbitrary: s)
  case Nil
  then show ?case by (cases s) simp
next
  case (Cons c cs)
  then show ?case by (cases s) (simp split: sum.splits bool.splits)
qed

lemma lk_rows_cong:
  "(\<And>r c. r \<in> set rs \<Longrightarrow> c \<in> set cs \<Longrightarrow> sel r c = sel' r c) \<Longrightarrow>
     lk_rows sel Ix Iy It b N rs cs s = lk_rows sel' Ix Iy It b N rs cs s"
proof (induction rs arbitrary: s)
  case Nil
  then show ?case by (cases s) simp
next
  case (Cons r rs)
  have "lk_cols sel Ix Iy It b N r cs s = lk_cols sel' Ix Iy It b N r cs s"
    using Cons.prems by (intro lk_cols_cong) simp
  then show ?case using Cons by (cases s) (simp split: sum.splits)
qed

lemma nth_zeros: "i < h \<Longrightarrow> j < w \<Longrightarrow> zeros (h, w) ! i ! j = 0"
  by (simp add: zeros_def)

lemma lk_loops_char:
  assumes "is_image h w Ix" "is_image h w Iy" "is_image h w It"
  shows "\<exists>du dv. lk_rows (\<lambda>r c. Inr (sel r c)) Ix Iy It b ((2 * b + 1) ^ 2) [b..<h - b] [b..<w - b]
                    (zeros (h, w), zeros (h, w)) = Inr (du, dv)
           \<and> is_image h w du \<and> is_image h w dv
           \<and> (\<forall>i<h. \<forall>j<w.
                 du ! i ! j = (if interior h w b i j \<and> sel i j
                               then window_solution Ix Iy It b i j ! 0 else 0)
               \<and> dv ! i ! j = (if interior h w b i j \<and> sel i j
                               then window_solution Ix Iy It b i j ! 1 else 0))"
proof -
  have hw: "0 < h" "0 < w" using assms(1) by (simp_all add: is_image_def)
  have z: "is_image h w (zeros (h, w))" using hw by (rule is_image_zeros)
  have pix: "lk_pixel Ix Iy It b ((2 * b + 1) ^ 2) r c = Inr (window_solution Ix Iy It b r c)"
    if "r \<in> set [b..<h - b]" "c \<in> set [b..<w - b]" for r c
    unfolding window_solution_def
    using assms that by (intro lk_pixel_interior[of h w]) auto
  obtain du dv where
    run: "lk_rows (\<lambda>r c. Inr (sel r c)) Ix Iy It b ((2 * b + 1) ^ 2) [b..<h - b] [b..<w - b]
            (zeros (h, w), zeros (h, w)) = Inr (du, dv)"
    and im: "is_image h w du" "is_image h w dv"
    and px: "\<And>i j. i < h \<Longrightarrow> j < w \<Longrightarrow>
               du ! i ! j = (if i \<in> set [b..<h - b] \<and> j \<in> set [b..<w - b] \<and> sel i j
                             then window_solution Ix Iy It b i j ! 0 else zeros (h, w) ! i ! j)
             \<and> dv ! i ! j = (if i \<in> set [b..<h - b] \<and> j \<in> set [b..<w - b] \<and> sel i j
                             then window_solution Ix Iy It b i j ! 1 else zeros (h, w) ! i ! j)"
    using lk_rows_char[of h w "zeros (h, w)" "zeros (h, w)" "[b..<h - b]" "[b..<w - b]" sel
        Ix Iy It b "(2 * b + 1) ^ 2" "window_solution Ix Iy It b", OF z z pix]
    by auto
  have mem: "(i \<in> set [b..<h - b] \<and> j \<in> set [b..<w - b]) = interior h w b i j" for i j
    by (auto simp: interior_def)
  have "\<forall>i<h. \<forall>j<w.
                 du ! i ! j = (if interior h w b i j \<and> sel i j
                               then window_solution Ix Iy It b i j ! 0 else 0)
               \<and> dv ! i ! j = (if interior h w b i j \<and> sel i j
                               then window_solution Ix Iy It b i j ! 1 else 0)"
  proof (intro allI impI)
    fix i j assume ij: "i < h" "j < w"
    show "du ! i ! j = (if interior h w b i j \<and> sel i j
                               then window_solution Ix Iy It b i j ! 0 else 0)
               \<and> dv ! i ! j = (if interior h w b i j \<and> sel i j
                               then window_solution Ix Iy It b i j ! 1 else 0)"
      using px[OF ij] mem[of i j] nth_zeros[OF ij] by auto
  qed
  with run im show ?thesis by blast
qed

lemma lucas_kanade_step_char:
  assumes "is_image h w I1" "is_image h w I2" "odd window_size"
  shows "\<exists>du dv. lucas_kanade_step I1 I2 window_size = Inr (du, dv)
           \<and> is_image h w du \<and> is_image h w dv
           \<and> (\<forall>i<h. \<forall>j<w.
                 du ! i ! j = (if interior h w (window_size div 2) i j
                               then dense_solution I1 I2 (window_size div 2) i j ! 0 else 0)
               \<and> dv ! i ! j = (if interior h w (window_size div 2) i j
                               then dense_solution I1 I2 (window_size div 2) i j ! 1 else 0))"
proof -
  let ?b = "window_size div 2"
  have ws: "window_size = 2 * ?b + 1" using assms(3) by presburger
  have s1: "shape I1 = (h, w)" "nrows I1 = h" "ncols I1 = w"
    using assms(1) by (simp_all add: is_image_shape is_image_nrows is_image_ncols)
  have hw: "0 < h" "0 < w" using assms(1) by (simp_all add: is_image_def)
  have sub: "np_binop (-) I2 I1 = Inr (temporal I1 I2)"
    using np_binop_same[OF assms(2) assms(1), of "(-)"] by (simp add: temporal_def s1)
  have it: "is_image h w (temporal I1 I2)"
    unfolding temporal_def s1 using hw by (rule is_image_tabulate)
  have step: "lucas_kanade_step I1 I2 window_size =
      lk_rows (\<lambda>r c. Inr True) (convolve2d_symm_same I2 X_DERIVATIVE_FILTER)
        (convolve2d_symm_same I2 Y_DERIVATIVE_FILTER) (temporal I1 I2) ?b ((2 * ?b + 1) ^ 2)
        [?b..<h - ?b] [?b..<w - ?b] (zeros (h, w), zeros (h, w))"
    using ws by (simp add: lucas_kanade_step_def Let_def sub s1)
  show ?thesis
    unfolding step dense_solution_def
    using lk_loops_char[OF is_image_convolve2d[OF assms(2)] is_image_convolve2d[OF assms(2)] it,
        where sel = "\<lambda>r c. True" and b = ?b]
    by simp
qed

section \<open>Zero motion\<close>

lemma sum_list_all_zero:
  "(\<And>x. x \<in> set xs \<Longrightarrow> f x = (0::rat)) \<Longrightarrow> sum_list (map f xs) = 0"
  by (induction xs) simp_all

lemma dot_zero:
  assumes z: "\<And>y. y \<in> set ys \<Longrightarrow> y = 0"
  shows "dot xs ys = 0"
  unfolding dot_def
proof (rule sum_list_all_zero)
  fix p assume pin: "p \<in> set (zip xs ys)"
  obtain x y where p: "p = (x, y)" by (cases p)
  then have "y \<in> set ys" using pin by (auto dest: set_zip_rightD)
  then show "(case p of (x, y) \<Rightarrow> x * y) = 0" using z p by simp
qed

lemma linalg_inv_length: "linalg_inv A = Inr M \<Longrightarrow> length M = 2"
  by (induction A rule: linalg_inv.induct) (auto split: if_splits)

lemma lk_solve_zero:
  assumes "\<And>y. y \<in> set b \<Longrightarrow> y = 0"
  shows "lk_solve A_Ix A_Iy b = [0, 0]"
proof -
  have mv: "matvec M b = [0, 0]" if "length M = 2" for M
  proof -
    have "matvec M b = map (\<lambda>_. 0) M"
      unfolding matvec_def using assms by (intro map_cong) (simp_all add: dot_zero)
    also have "\<dots> = replicate (length M) 0" by (simp add: map_replicate_const)
    finally show ?thesis using that by (simp add: numeral_2_eq_2)
  qed
  show ?thesis
    unfolding lk_solve_def Let_def
    by (auto split: sum.splits intro!: mv simp: matmul_def mat_neg_def dest: linalg_inv_length)
qed

lemma set_slice: "set (slice i j xs) \<subseteq> set xs"
  unfolding slice_def by (meson set_drop_subset set_take_subset subset_trans)

lemma set_concat_window:
  assumes "x \<in> set (concat (window a r c b))"
  shows "\<exists>row \<in> set a. x \<in> set row"
proof -
  obtain row where row: "row \<in> set (slice (r - b) (r + b + 1) a)"
    and x: "x \<in> set (slice (c - b) (c + b + 1) row)"
    using assms by (auto simp: window_def)
  have "row \<in> set a" using row set_slice[of "r - b" "r + b + 1" a] by blast
  moreover have "x \<in> set row" using x set_slice[of "c - b" "c + b + 1" row] by blast
  ultimately show ?thesis by blast
qed

lemma temporal_self_zero:
  assumes "x \<in> set (concat (window (temporal I I) r c b))"
  shows "x = 0"
proof -
  obtain row where "row \<in> set (temporal I I)" "x \<in> set row"
    using set_concat_window[OF assms] by blast
  then show ?thesis by (auto simp: temporal_def)
qed

lemma dense_solution_self: "dense_solution I I b r c = [0, 0]"
  unfolding dense_solution_def window_solution_def
  by (rule lk_solve_zero) (rule temporal_self_zero)

lemma tabulate_eqI:
  assumes "is_image h w a" "is_image h w b" "\<And>i j. i < h \<Longrightarrow> j < w \<Longrightarrow> a ! i ! j = b ! i ! j"
  shows "a = b"
proof (rule nth_equalityI)
  show "length a = length b" using assms by (simp add: is_image_def)
  fix i assume "i < length a"
  then have i: "i < h" using assms by (simp add: is_image_def)
  show "a ! i = b ! i"
    using assms i by (intro nth_equalityI) (simp_all add: is_image_nth_length)
qed

text \<open>
  C1.  For every image \<open>I\<close> and odd \<open>window_size\<close>, \<open>lucas_kanade_step I I window_size\<close>
  returns \<open>du\<close> and \<open>dv\<close> that are all-zero arrays of the shape of \<open>I\<close>: the temporal
  derivative is zero everywhere, so every window's solution is \<open>(0, 0)\<close>, and so is the
  fallback of a singular window.
\<close>

theorem zero_motion_identity:
  assumes "is_image h w I" "odd window_size"
  shows "lucas_kanade_step I I window_size = Inr (zeros (shape I), zeros (shape I))"
proof -
  obtain du dv where run: "lucas_kanade_step I I window_size = Inr (du, dv)"
    and im: "is_image h w du" "is_image h w dv"
    and px: "\<And>i j. i < h \<Longrightarrow> j < w \<Longrightarrow>
               du ! i ! j = (if interior h w (window_size div 2) i j
                               then dense_solution I I (window_size div 2) i j ! 0 else 0)
             \<and> dv ! i ! j = (if interior h w (window_size div 2) i j
                               then dense_solution I I (window_size div 2) i j ! 1 else 0)"
    using lucas_kanade_step_char[OF assms(1) assms(1) assms(2)] by blast
  have hw: "0 < h" "0 < w" using assms(1) by (simp_all add: is_image_def)
  have z: "is_image h w (zeros (h, w))" using hw by (rule is_image_zeros)
  have "du = zeros (h, w)"
    using im(1) z px by (intro tabulate_eqI[of h w]) (simp_all add: dense_solution_self nth_zeros)
  moreover have "dv = zeros (h, w)"
    using im(2) z px by (intro tabulate_eqI[of h w]) (simp_all add: dense_solution_self nth_zeros)
  ultimately show ?thesis
    using run is_image_shape[OF assms(1)] by simp
qed

theorem zero_motion_identity_witness:
  "lucas_kanade_step [[1, 2, 3], [4, 5, 7], [0, 8, 9]] [[1, 2, 3], [4, 5, 7], [0, 8, 9]] 3
     = Inr ([[0, 0, 0], [0, 0, 0], [0, 0, 0]], [[0, 0, 0], [0, 0, 0], [0, 0, 0]])"
proof -
  have i: "is_image 3 3 [[1, 2, 3], [4, 5, 7], [0, 8, 9 :: rat]]"
    by (simp add: is_image_def)
  have o: "odd (3 :: nat)" by simp
  show ?thesis
    using zero_motion_identity[OF i o]
    by (simp add: shape_def nrows_def ncols_def zeros_def numeral_3_eq_3)
qed

section \<open>Border pixels\<close>

text \<open>
  C4.  For two images of one shape and an odd \<open>window_size\<close>, the \<open>du\<close> and \<open>dv\<close> returned
  by \<open>lucas_kanade_step\<close> have the images' shape and are zero at every pixel within
  \<open>window_size div 2\<close> of the top, bottom, left or right edge.
\<close>

theorem border_invariant:
  assumes "is_image h w I1" "is_image h w I2" "odd window_size"
  shows "\<exists>du dv. lucas_kanade_step I1 I2 window_size = Inr (du, dv)
           \<and> shape du = (h, w) \<and> shape dv = (h, w)
           \<and> (\<forall>r<h. \<forall>c<w.
                 r < window_size div 2 \<or> h - window_size div 2 \<le> r
                 \<or> c < window_size div 2 \<or> w - window_size div 2 \<le> c
                 \<longrightarrow> du ! r ! c = 0 \<and> dv ! r ! c = 0)"
proof -
  obtain du dv where run: "lucas_kanade_step I1 I2 window_size = Inr (du, dv)"
    and im: "is_image h w du" "is_image h w dv"
    and px: "\<And>i j. i < h \<Longrightarrow> j < w \<Longrightarrow>
               du ! i ! j = (if interior h w (window_size div 2) i j
                               then dense_solution I1 I2 (window_size div 2) i j ! 0 else 0)
             \<and> dv ! i ! j = (if interior h w (window_size div 2) i j
                               then dense_solution I1 I2 (window_size div 2) i j ! 1 else 0)"
    using lucas_kanade_step_char[OF assms] by blast
  have "du ! r ! c = 0 \<and> dv ! r ! c = 0"
    if "r < h" "c < w"
      "r < window_size div 2 \<or> h - window_size div 2 \<le> r
        \<or> c < window_size div 2 \<or> w - window_size div 2 \<le> c" for r c
  proof -
    have "\<not> interior h w (window_size div 2) r c"
      using that by (auto simp: interior_def)
    then show ?thesis using px[OF that(1,2)] by simp
  qed
  then show ?thesis
    using run is_image_shape[OF im(1)] is_image_shape[OF im(2)] by blast
qed

theorem border_invariant_witness:
  "\<exists>du dv. lucas_kanade_step [[1, 2, 3], [4, 5, 6], [7, 8, 10]] [[1, 2, 3], [4, 5, 6], [7, 8, 9]] 3
              = Inr (du, dv)
           \<and> shape du = (3, 3) \<and> shape dv = (3, 3)
           \<and> (\<forall>r<3. \<forall>c<3. r < 1 \<or> 2 \<le> r \<or> c < 1 \<or> 2 \<le> c \<longrightarrow> du ! r ! c = 0 \<and> dv ! r ! c = 0)"
proof -
  have i1: "is_image 3 3 [[1, 2, 3], [4, 5, 6], [7, 8, 10 :: rat]]"
    and i2: "is_image 3 3 [[1, 2, 3], [4, 5, 6], [7, 8, 9 :: rat]]"
    by (simp_all add: is_image_def)
  have o: "odd (3 :: nat)" by simp
  show ?thesis
    using border_invariant[OF i1 i2 o] by simp
qed

section \<open>The corner-restricted step\<close>

lemma threshold_corners_image:
  assumes "is_image h w a"
  shows "\<exists>corners. threshold_corners a = Inr corners \<and> is_image h w corners"
proof -
  have "length (concat a) = length a * w"
    using assms by (intro length_concat_const) (simp add: is_image_def list_all_iff)
  moreover have "0 < length a * w" using assms by (simp add: is_image_def)
  ultimately have "concat a \<noteq> []" by (metis length_greater_0_conv)
  then obtain x xs where "concat a = x # xs" by (cases "concat a") auto
  then have m: "array_max a = Inr (fold max xs x)" by (simp add: array_max_def)
  define m where "m = fold max xs x"
  have "is_image h w (map (map (\<lambda>x. if x < TH * m then 0 else x)) a)"
    using assms by (simp add: is_image_def list_all_iff)
  then show ?thesis by (simp add: threshold_corners_def m m_def)
qed

lemma corner_guard_in_range:
  "is_image h w corners \<Longrightarrow> r < h \<Longrightarrow> c < w \<Longrightarrow>
     corner_guard corners r c = Inr (corners ! r ! c \<noteq> 0)"
  by (simp add: corner_guard_def get2d_def is_image_def list_all_length)

lemma faster_lucas_kanade_step_char:
  assumes "is_image h w I1" "is_image h w I2" "odd window_size"
    and "is_image h w (cornerHarris I2)"
    and big: "\<not> (h < MAX_SHAPE \<and> w < MAX_SHAPE)"
  shows "\<exists>corners du dv. threshold_corners (cornerHarris I2) = Inr corners
           \<and> is_image h w corners
           \<and> faster_lucas_kanade_step cornerHarris I1 I2 window_size = Inr (du, dv)
           \<and> is_image h w du \<and> is_image h w dv
           \<and> (\<forall>i<h. \<forall>j<w.
                 du ! i ! j = (if interior h w (window_size div 2) i j \<and> corners ! i ! j \<noteq> 0
                               then dense_solution I1 I2 (window_size div 2) i j ! 0 else 0)
               \<and> dv ! i ! j = (if interior h w (window_size div 2) i j \<and> corners ! i ! j \<noteq> 0
                               then dense_solution I1 I2 (window_size div 2) i j ! 1 else 0))"
proof -
  let ?b = "window_size div 2"
  let ?Ix = "convolve2d_symm_same I2 X_DERIVATIVE_FILTER"
  let ?Iy = "convolve2d_symm_same I2 Y_DERIVATIVE_FILTER"
  have ws: "window_size = 2 * ?b + 1" using assms(3) by presburger
  have s1: "shape I1 = (h, w)" "nrows I1 = h" "ncols I1 = w"
    using assms(1) by (simp_all add: is_image_shape is_image_nrows is_image_ncols)
  have hw: "0 < h" "0 < w" using assms(1) by (simp_all add: is_image_def)
  have sub: "np_binop (-) I2 I1 = Inr (temporal I1 I2)"
    using np_binop_same[OF assms(2) assms(1), of "(-)"] by (simp add: temporal_def s1)
  have it: "is_image h w (temporal I1 I2)"
    unfolding temporal_def s1 using hw by (rule is_image_tabulate)
  obtain corners where th: "threshold_corners (cornerHarris I2) = Inr corners"
    and ci: "is_image h w corners"
    using threshold_corners_image[OF assms(4)] by blast
  have step: "faster_lucas_kanade_step cornerHarris I1 I2 window_size =
      lk_rows (corner_guard corners) ?Ix ?Iy (temporal I1 I2) ?b ((2 * ?b + 1) ^ 2)
        [?b..<h - ?b] [?b..<w - ?b] (zeros (h, w), zeros (h, w))"
  proof -
    have nb: "(h < MAX_SHAPE \<and> w < MAX_SHAPE) = False" using big by simp
    show ?thesis
      using ws by (simp add: faster_lucas_kanade_step_def Let_def sub s1 th nb)
  qed
  also have "\<dots> =
      lk_rows (\<lambda>r c. Inr (corners ! r ! c \<noteq> 0)) ?Ix ?Iy (temporal I1 I2) ?b ((2 * ?b + 1) ^ 2)
        [?b..<h - ?b] [?b..<w - ?b] (zeros (h, w), zeros (h, w))"
    using ci by (intro lk_rows_cong corner_guard_in_range[of h w]) auto
  finally have step': "faster_lucas_kanade_step cornerHarris I1 I2 window_size =
      lk_rows (\<lambda>r c. Inr (corners ! r ! c \<noteq> 0)) ?Ix ?Iy (temporal I1 I2) ?b ((2 * ?b + 1) ^ 2)
        [?b..<h - ?b] [?b..<w - ?b] (zeros (h, w), zeros (h, w))" .
  show ?thesis
    unfolding step' dense_solution_def
    using th ci
      lk_loops_char[OF is_image_convolve2d[OF assms(2)] is_image_convolve2d[OF assms(2)] it,
        where sel = "\<lambda>r c. corners ! r ! c \<noteq> 0" and b = ?b]
    by simp
qed

section \<open>The corner-restricted step against the dense step\<close>

text \<open>
  C9.  When the height and the width of \<open>I1\<close> are both below 200,
  \<open>faster_lucas_kanade_step\<close> returns exactly what \<open>lucas_kanade_step\<close> returns.  For a
  larger image it returns fields of the image's shape that hold the value computed by
  \<open>lucas_kanade_step\<close> at every interior pixel whose thresholded corner response is not
  zero, and zero at every other pixel.
\<close>

theorem faster_step_refines_dense:
  assumes "is_image h w I1" "is_image h w I2" "odd window_size"
    and "is_image h w (cornerHarris I2)"
  shows "(h < 200 \<and> w < 200 \<longrightarrow>
            faster_lucas_kanade_step cornerHarris I1 I2 window_size =
              lucas_kanade_step I1 I2 window_size)
       \<and> (\<not> (h < 200 \<and> w < 200) \<longrightarrow>
            (\<exists>corners du dv fu fv.
               threshold_corners (cornerHarris I2) = Inr corners
             \<and> lucas_kanade_step I1 I2 window_size = Inr (du, dv)
             \<and> faster_lucas_kanade_step cornerHarris I1 I2 window_size = Inr (fu, fv)
             \<and> shape fu = (h, w) \<and> shape fv = (h, w)
             \<and> (\<forall>r<h. \<forall>c<w.
                   fu ! r ! c = (if interior h w (window_size div 2) r c \<and> corners ! r ! c \<noteq> 0
                                 then du ! r ! c else 0)
                 \<and> fv ! r ! c = (if interior h w (window_size div 2) r c \<and> corners ! r ! c \<noteq> 0
                                 then dv ! r ! c else 0))))"
proof (intro conjI impI)
  assume "h < 200 \<and> w < 200"
  then show "faster_lucas_kanade_step cornerHarris I1 I2 window_size =
               lucas_kanade_step I1 I2 window_size"
    using is_image_nrows[OF assms(1)] is_image_ncols[OF assms(1)]
    by (simp add: faster_lucas_kanade_step_def Let_def MAX_SHAPE_def)
next
  let ?b = "window_size div 2"
  assume "\<not> (h < 200 \<and> w < 200)"
  then have big: "\<not> (h < MAX_SHAPE \<and> w < MAX_SHAPE)" by (simp add: MAX_SHAPE_def)
  obtain du dv where run: "lucas_kanade_step I1 I2 window_size = Inr (du, dv)"
    and "is_image h w du" "is_image h w dv"
    and px: "\<And>i j. i < h \<Longrightarrow> j < w \<Longrightarrow>
               du ! i ! j = (if interior h w ?b i j
                               then dense_solution I1 I2 ?b i j ! 0 else 0)
             \<and> dv ! i ! j = (if interior h w ?b i j
                               then dense_solution I1 I2 ?b i j ! 1 else 0)"
    using lucas_kanade_step_char[OF assms(1,2,3)] by blast
  obtain corners fu fv where
    th: "threshold_corners (cornerHarris I2) = Inr corners" and "is_image h w corners"
    and run': "faster_lucas_kanade_step cornerHarris I1 I2 window_size = Inr (fu, fv)"
    and im: "is_image h w fu" "is_image h w fv"
    and px': "\<And>i j. i < h \<Longrightarrow> j < w \<Longrightarrow>
               fu ! i ! j = (if interior h w ?b i j \<and> corners ! i ! j \<noteq> 0
                             then dense_solution I1 I2 ?b i j ! 0 else 0)
             \<and> fv ! i ! j = (if interior h w ?b i j \<and> corners ! i ! j \<noteq> 0
                             then dense_solution I1 I2 ?b i j ! 1 else 0)"
    using faster_lucas_kanade_step_char[where cornerHarris = cornerHarris, OF assms(1,2,3,4) big]
    by blast
  have "fu ! r ! c = (if interior h w ?b r c \<and> corners ! r ! c \<noteq> 0 then du ! r ! c else 0)
      \<and> fv ! r ! c = (if interior h w ?b r c \<and> corners ! r ! c \<noteq> 0 then dv ! r ! c else 0)"
    if "r < h" "c < w" for r c
    using px[OF that] px'[OF that] by simp
  then show "\<exists>corners du dv fu fv.
               threshold_corners (cornerHarris I2) = Inr corners
             \<and> lucas_kanade_step I1 I2 window_size = Inr (du, dv)
             \<and> faster_lucas_kanade_step cornerHarris I1 I2 window_size = Inr (fu, fv)
             \<and> shape fu = (h, w) \<and> shape fv = (h, w)
             \<and> (\<forall>r<h. \<forall>c<w.
                   fu ! r ! c = (if interior h w ?b r c \<and> corners ! r ! c \<noteq> 0
                                 then du ! r ! c else 0)
                 \<and> fv ! r ! c = (if interior h w ?b r c \<and> corners ! r ! c \<noteq> 0
                                 then dv ! r ! c else 0))"
    using th run run' is_image_shape[OF im(1)] is_image_shape[OF im(2)] by blast
qed

theorem faster_step_refines_dense_witness:
  "faster_lucas_kanade_step (\<lambda>a. a) [[1, 2], [3, 5]] [[1, 2], [3, 4]] 1 =
     lucas_kanade_step [[1, 2], [3, 5]] [[1, 2], [3, 4]] 1
   \<and> (\<exists>corners du dv fu fv.
         threshold_corners (replicate 200 [2]) = Inr corners
       \<and> lucas_kanade_step (replicate 200 [1]) (replicate 200 [2]) 1 = Inr (du, dv)
       \<and> faster_lucas_kanade_step (\<lambda>a. a) (replicate 200 [1]) (replicate 200 [2]) 1 = Inr (fu, fv)
       \<and> shape fu = (200, 1) \<and> shape fv = (200, 1)
       \<and> (\<forall>r<200. \<forall>c<1.
             fu ! r ! c = (if interior 200 1 (1 div 2) r c \<and> corners ! r ! c \<noteq> 0
                           then du ! r ! c else 0)
           \<and> fv ! r ! c = (if interior 200 1 (1 div 2) r c \<and> corners ! r ! c \<noteq> 0
                           then dv ! r ! c else 0)))"
proof -
  have i1: "is_image 2 2 [[1, 2], [3, 5 :: rat]]" and i2: "is_image 2 2 [[1, 2], [3, 4 :: rat]]"
    by (simp_all add: is_image_def)
  have o: "odd (1 :: nat)" by simp
  have ch: "is_image 2 2 ((\<lambda>a. a) [[1, 2], [3, 4 :: rat]])"
    using i2 by simp
  have small: "faster_lucas_kanade_step (\<lambda>a. a) [[1, 2], [3, 5]] [[1, 2], [3, 4]] 1 =
     lucas_kanade_step [[1, 2], [3, 5]] [[1, 2], [3, 4]] 1"
    using faster_step_refines_dense[where cornerHarris = "\<lambda>a. a", OF i1 i2 o ch] by simp
  have j1: "is_image 200 1 (replicate 200 [1 :: rat])"
    and j2: "is_image 200 1 (replicate 200 [2 :: rat])"
    by (simp_all add: is_image_def list_all_iff)
  have cj: "is_image 200 1 ((\<lambda>a. a) (replicate 200 [2 :: rat]))"
    using j2 by simp
  have big: "\<not> ((200::nat) < 200 \<and> (1::nat) < 200)" by simp
  show ?thesis
    using small faster_step_refines_dense[where cornerHarris = "\<lambda>a. a", OF j1 j2 o cj] big
    by simp
qed

section \<open>Images of different shapes\<close>

text \<open>
  C10.  \<open>lucas_kanade_step\<close> has no shape check of its own.  A call with two images whose
  shapes cannot be broadcast against each other is rejected: the subtraction
  \<open>I2 - I1\<close> raises.
\<close>

theorem shape_mismatch_rejected_when_not_broadcastable:
  assumes "\<not> broadcastable (shape I2) (shape I1)"
  shows "lucas_kanade_step I1 I2 window_size = Inl ValueError"
  using assms by (simp add: lucas_kanade_step_def Let_def np_binop_def)

theorem shape_mismatch_rejected_when_not_broadcastable_witness:
  "lucas_kanade_step [[1, 2]] [[1, 2, 3]] 3 = Inl ValueError"
proof -
  have "\<not> broadcastable (shape [[1, 2, 3 :: rat]]) (shape [[1, 2 :: rat]])"
    by (simp add: broadcastable_def shape_def nrows_def ncols_def)
  then show ?thesis
    by (rule shape_mismatch_rejected_when_not_broadcastable)
qed

theorem shape_mismatch_counterexample:
  "shape [[0 :: rat]] \<noteq> shape [[1, 2, 3], [4, 5, 6], [7, 8, 9 :: rat]]
   \<and> lucas_kanade_step [[0]] [[1, 2, 3], [4, 5, 6], [7, 8, 9]] 3 = Inr ([[0]], [[0]])
   \<and> lucas_kanade_step [[0]] [[1, 2, 3], [4, 5, 6], [7, 8, 9]] 1 = Inr ([[0]], [[0]])"
  by code_simp

section \<open>Flattening, reshaping and the mesh grid\<close>

lemma nth_concat_rect:
  assumes "\<And>row. row \<in> set a \<Longrightarrow> length row = w" "r < length a" "c < w"
  shows "concat a ! (r * w + c) = a ! r ! c"
  using assms
proof (induction a arbitrary: r)
  case Nil
  then show ?case by simp
next
  case (Cons row a)
  have lr: "length row = w" using Cons.prems(1) by simp
  show ?case
  proof (cases r)
    case 0
    then show ?thesis using lr Cons.prems(3) by (simp add: nth_append)
  next
    case (Suc r')
    have "concat a ! (r' * w + c) = a ! r' ! c"
      using Cons.prems Suc by (intro Cons.IH) simp_all
    then show ?thesis using lr Suc by (simp add: nth_append)
  qed
qed

lemma nth_concat_image:
  "is_image h w a \<Longrightarrow> r < h \<Longrightarrow> c < w \<Longrightarrow> concat a ! (r * w + c) = a ! r ! c"
  by (rule nth_concat_rect) (simp_all add: is_image_def list_all_iff)

lemma length_concat_image: "is_image h w a \<Longrightarrow> length (concat a) = h * w"
  using length_concat_const[of a w] by (simp add: is_image_def list_all_iff)

lemma length_unflatten: "length (unflatten h w xs) = h"
  by (induction h arbitrary: xs) simp_all

lemma unflatten_rows:
  "length xs = h * w \<Longrightarrow> row \<in> set (unflatten h w xs) \<Longrightarrow> length row = w"
proof (induction h arbitrary: xs)
  case 0
  then show ?case by simp
next
  case (Suc h)
  from Suc.prems(2) have "row = take w xs \<or> row \<in> set (unflatten h w (drop w xs))"
    by simp
  then show ?case
  proof
    assume "row = take w xs"
    then show ?thesis using Suc.prems(1) by simp
  next
    assume "row \<in> set (unflatten h w (drop w xs))"
    moreover have "length (drop w xs) = h * w" using Suc.prems(1) by simp
    ultimately show ?thesis by (rule Suc.IH[rotated])
  qed
qed

lemma nth_unflatten:
  "length xs = h * w \<Longrightarrow> r < h \<Longrightarrow> c < w \<Longrightarrow> unflatten h w xs ! r ! c = xs ! (r * w + c)"
proof (induction h arbitrary: xs r)
  case 0
  then show ?case by simp
next
  case (Suc h)
  show ?case
  proof (cases r)
    case 0
    then show ?thesis using Suc.prems by simp
  next
    case r: (Suc r')
    have "unflatten h w (drop w xs) ! r' ! c = drop w xs ! (r' * w + c)"
      using Suc.prems r by (intro Suc.IH) simp_all
    moreover have le: "w + (r' * w + c) \<le> length xs"
    proof -
      have "Suc r' \<le> h" using Suc.prems(2) r by simp
      then have "Suc r' * w \<le> h * w" by (rule mult_le_mono1)
      then show ?thesis using Suc.prems(1,3) by simp
    qed
    moreover have "drop w xs ! (r' * w + c) = xs ! (w + (r' * w + c))"
      using le by (intro nth_drop) simp
    moreover have "w + (r' * w + c) = r * w + c" by (simp add: r)
    ultimately show ?thesis by (simp add: r)
  qed
qed

lemma image_eqI:
  assumes "length a = h" "length b = h"
    and "\<And>row. row \<in> set a \<Longrightarrow> length row = w" "\<And>row. row \<in> set b \<Longrightarrow> length row = w"
    and "\<And>i j. i < h \<Longrightarrow> j < w \<Longrightarrow> a ! i ! j = b ! i ! j"
  shows "a = b"
proof (rule nth_equalityI)
  show "length a = length b" using assms by simp
  fix i assume i: "i < length a"
  then have "length (a ! i) = w" "length (b ! i) = w"
    using assms by simp_all
  then show "a ! i = b ! i"
    using assms(1,5) i by (intro nth_equalityI) simp_all
qed

lemma unflatten_concat:
  assumes "length a = h" "\<And>row. row \<in> set a \<Longrightarrow> length row = w"
  shows "unflatten h w (concat a) = a"
  using assms
proof (induction a arbitrary: h)
  case Nil
  then show ?case by simp
next
  case (Cons row a)
  then obtain h' where h: "h = Suc h'" "length a = h'" by auto
  have "length row = w" using Cons.prems(2) by simp
  moreover have "unflatten h' w (concat a) = a"
    using Cons.prems(2) h by (intro Cons.IH) simp_all
  ultimately show ?case by (simp add: h)
qed

lemma tabulate_rows:
  "row \<in> set (map (\<lambda>i. map (g i) [0..<w]) [0..<h]) \<Longrightarrow> length row = w"
  by auto

lemma length_concat_tabulate:
  "length (concat (map (\<lambda>i. map (g i) [0..<w]) [0..<h])) = h * w"
  using length_concat_const[of "map (\<lambda>i. map (g i) [0..<w]) [0..<h]" w, OF tabulate_rows]
  by simp

lemma nth_concat_tabulate:
  assumes "r < h" "c < w"
  shows "concat (map (\<lambda>i. map (g i) [0..<w]) [0..<h]) ! (r * w + c) = g r c"
proof -
  have "concat (map (\<lambda>i. map (g i) [0..<w]) [0..<h]) ! (r * w + c)
          = map (\<lambda>i. map (g i) [0..<w]) [0..<h] ! r ! c"
    using assms by (intro nth_concat_rect tabulate_rows) simp_all
  then show ?thesis using assms by simp
qed

lemma index_in_range: "r < h \<Longrightarrow> c < w \<Longrightarrow> r * w + c < h * (w::nat)"
proof -
  assume "r < h" "c < w"
  then have "Suc r * w \<le> h * w" by (intro mult_le_mono1) simp
  then show ?thesis using \<open>c < w\<close> by simp
qed

lemma grid_points_image:
  assumes "is_image h w img"
  shows "grid_points img =
           (map of_nat (concat (map (\<lambda>i. map (\<lambda>j. j) [0..<w]) [0..<h])),
            map of_nat (concat (map (\<lambda>i. map (\<lambda>j. i) [0..<w]) [0..<h])))"
  using is_image_nrows[OF assms] is_image_ncols[OF assms]
  by (simp add: grid_points_def meshgrid_def Let_def)

lemma grid_points_length:
  assumes "is_image h w img"
  shows "length (fst (grid_points img)) = h * w" "length (snd (grid_points img)) = h * w"
  using length_concat_tabulate[of "\<lambda>i j. j" w h] length_concat_tabulate[of "\<lambda>i j. i" w h]
  by (simp_all add: grid_points_image[OF assms])

lemma grid_points_nth:
  assumes "is_image h w img" "r < h" "c < w"
  shows "fst (grid_points img) ! (r * w + c) = of_nat c"
    "snd (grid_points img) ! (r * w + c) = of_nat r"
  using index_in_range[OF assms(2,3)]
    length_concat_tabulate[of "\<lambda>i j. j" w h] length_concat_tabulate[of "\<lambda>i j. i" w h]
    nth_concat_tabulate[OF assms(2,3), of "\<lambda>i j. j"]
    nth_concat_tabulate[OF assms(2,3), of "\<lambda>i j. i"]
  by (simp_all add: grid_points_image[OF assms(1)])

section \<open>The warp\<close>

lemma is_image_rows: "is_image h w a \<Longrightarrow> row \<in> set a \<Longrightarrow> length row = w"
  by (simp add: is_image_def list_all_iff)

lemma is_image_map_map: "is_image h w a \<Longrightarrow> is_image h w (map (map f) a)"
  by (simp add: is_image_def list_all_iff)

lemma nth_map_map: "is_image h w a \<Longrightarrow> r < h \<Longrightarrow> c < w \<Longrightarrow> map (map f) a ! r ! c = f (a ! r ! c)"
  by (simp add: is_image_def list_all_length)

lemma warp_fields_eq:
  assumes "is_image h w img" "is_image hu wu u" "is_image hv wv v"
    and "resize u (w, h) = Inr ru" "resize v (w, h) = Inr rv"
  shows "warp_fields resize img u v =
           Inr (map (map (\<lambda>x. x * (of_nat w / of_nat wu))) ru,
                map (map (\<lambda>x. x * (of_nat h / of_nat hv))) rv)"
proof -
  have "ncols u = wu" "nrows v = hv" "ncols img = w" "nrows img = h"
    using assms(1,2,3) by (simp_all add: is_image_nrows is_image_ncols)
  moreover have "0 < wu" "0 < hv" using assms(2,3) by (simp_all add: is_image_def)
  ultimately show ?thesis
    using assms(4,5) by (simp add: warp_fields_def Let_def)
qed

lemma np_add1_same_length:
  "length a = length b \<Longrightarrow> np_add1 a b = Inr (map (\<lambda>(x, y). x + y) (zip a b))"
  by (simp add: np_add1_def)

lemma warp_queries_eq:
  assumes "is_image h w img" "is_image hu wu u" "is_image hv wv v"
    and "resize u (w, h) = Inr ru" "resize v (w, h) = Inr rv"
    and "is_image h w ru" "is_image h w rv"
  shows "\<exists>xq yq. warp_queries resize img u v = Inr (xq, yq)
           \<and> length xq = h * w \<and> length yq = h * w
           \<and> (\<forall>r<h. \<forall>c<w.
                 xq ! (r * w + c) = of_nat c + ru ! r ! c * (of_nat w / of_nat wu)
               \<and> yq ! (r * w + c) = of_nat r + rv ! r ! c * (of_nat h / of_nat hv))"
proof -
  let ?u2 = "map (map (\<lambda>x. x * (of_nat w / of_nat wu))) ru"
  let ?v2 = "map (map (\<lambda>x. x * (of_nat h / of_nat hv))) rv"
  let ?gx = "fst (grid_points img)" and ?gy = "snd (grid_points img)"
  let ?xq = "map (\<lambda>(x, y). x + y) (zip ?gx (concat ?u2))"
  let ?yq = "map (\<lambda>(x, y). x + y) (zip ?gy (concat ?v2))"
  have iu: "is_image h w ?u2" and iv: "is_image h w ?v2"
    using assms(6,7) by (simp_all add: is_image_map_map)
  have lu: "length (concat ?u2) = h * w" and lv: "length (concat ?v2) = h * w"
    using iu iv by (simp_all only: length_concat_image)
  have lg: "length ?gx = h * w" "length ?gy = h * w"
    using grid_points_length[OF assms(1)] by simp_all
  have q: "warp_queries resize img u v = Inr (?xq, ?yq)"
    using warp_fields_eq[where resize = resize, OF assms(1,2,3,4,5)] lu lv lg
    by (simp add: warp_queries_def np_add1_same_length)
  have px: "?xq ! (r * w + c) = of_nat c + ru ! r ! c * (of_nat w / of_nat wu)
          \<and> ?yq ! (r * w + c) = of_nat r + rv ! r ! c * (of_nat h / of_nat hv)"
    if rc: "r < h" "c < w" for r c
  proof -
    have i: "r * w + c < h * w" using rc by (rule index_in_range)
    have "concat ?u2 ! (r * w + c) = ru ! r ! c * (of_nat w / of_nat wu)"
      using nth_concat_image[OF iu rc] nth_map_map[OF assms(6) rc] by simp
    moreover have "concat ?v2 ! (r * w + c) = rv ! r ! c * (of_nat h / of_nat hv)"
      using nth_concat_image[OF iv rc] nth_map_map[OF assms(7) rc] by simp
    ultimately show ?thesis
      using i lu lv lg grid_points_nth[OF assms(1) rc] by simp
  qed
  have "length ?xq = h * w" "length ?yq = h * w"
    using lu lv lg by simp_all
  with q px show ?thesis by blast
qed

lemma fill_nan_image:
  assumes "length raw = h" "\<And>row. row \<in> set raw \<Longrightarrow> length row = w" "is_image h w img"
  shows "is_image h w (fill_nan raw img)"
    and "r < h \<Longrightarrow> c < w \<Longrightarrow>
           fill_nan raw img ! r ! c = (case raw ! r ! c of None \<Rightarrow> img ! r ! c | Some y \<Rightarrow> y)"
proof -
  have li: "length img = h" "0 < h" "0 < w" using assms(3) by (simp_all add: is_image_def)
  have lrow: "length (raw ! i) = w" "length (img ! i) = w" if "i < h" for i
    using that assms(1,2) is_image_nth_length[OF assms(3)] by simp_all
  have len: "length (fill_nan raw img) = h"
    using assms(1) li by (simp add: fill_nan_def)
  have row: "fill_nan raw img ! i =
      map (\<lambda>(x, p). case x of None \<Rightarrow> p | Some y \<Rightarrow> y) (zip (raw ! i) (img ! i))"
    if "i < h" for i
    using that assms(1) li by (simp add: fill_nan_def)
  have "length (fill_nan raw img ! i) = w" if "i < h" for i
    using row[OF that] lrow[OF that] by simp
  then show "is_image h w (fill_nan raw img)"
    using len li by (simp add: is_image_def list_all_length)
  show "fill_nan raw img ! r ! c = (case raw ! r ! c of None \<Rightarrow> img ! r ! c | Some y \<Rightarrow> y)"
    if "r < h" "c < w"
    using row[OF that(1)] lrow[OF that(1)] that(2) by simp
qed

lemma resize_ok_nearest: "resize_ok nearest_resize"
  unfolding resize_ok_def
proof (intro allI impI)
  fix a :: image and h w h' w' :: nat
  assume a: "is_image h w a \<and> 0 < h' \<and> 0 < w'"
  then have "a \<noteq> []" "ncols a = w" "0 < w"
    using is_image_ncols[of h w a] by (auto simp: is_image_def)
  then have "nearest_resize a (w', h') =
      Inr (map (\<lambda>i. map (\<lambda>j. a ! (i * nrows a div h') ! (j * ncols a div w')) [0..<w']) [0..<h'])"
    using a by (simp add: nearest_resize_def)
  moreover have "is_image h' w'
      (map (\<lambda>i. map (\<lambda>j. a ! (i * nrows a div h') ! (j * ncols a div w')) [0..<w']) [0..<h'])"
    using a by (intro is_image_tabulate) simp_all
  ultimately show "\<exists>b. nearest_resize a (w', h') = Inr b \<and> is_image h' w' b"
    by blast
qed

lemma griddata_ok_lookup: "griddata_ok lookup_griddata"
  by (simp add: griddata_ok_def lookup_griddata_def)

lemma warp_interp_total:
  assumes "resize_ok resize" "griddata_ok griddata"
    and "is_image h w img" "is_image hu wu u" "is_image hv wv v"
  shows "\<exists>raw. warp_interp resize griddata img u v = Inr raw
           \<and> length raw = h \<and> (\<forall>row \<in> set raw. length row = w)"
proof -
  have hw: "0 < h" "0 < w" using assms(3) by (simp_all add: is_image_def)
  obtain ru where ru: "resize u (w, h) = Inr ru" "is_image h w ru"
    using assms(1,4) hw unfolding resize_ok_def by blast
  obtain rv where rv: "resize v (w, h) = Inr rv" "is_image h w rv"
    using assms(1,5) hw unfolding resize_ok_def by blast
  obtain xq yq where q: "warp_queries resize img u v = Inr (xq, yq)"
    and lq: "length xq = h * w" "length yq = h * w"
    using warp_queries_eq[where resize = resize, OF assms(3,4,5) ru(1) rv(1) ru(2) rv(2)]
    by blast
  have lg: "length (fst (grid_points img)) = length (concat img)"
    "length (snd (grid_points img)) = length (concat img)"
    using grid_points_length[OF assms(3)] length_concat_image[OF assms(3)] by simp_all
  obtain out where out: "griddata (fst (grid_points img), snd (grid_points img)) (concat img)
      (xq, yq) = Inr out" and lo: "length out = length xq"
    using assms(2) lg lq unfolding griddata_ok_def by metis
  have "warp_interp resize griddata img u v = Inr (unflatten h w out)"
    using q out lo lq is_image_shape[OF assms(3)]
    by (simp add: warp_interp_def reshape2_def)
  moreover have "length (unflatten h w out) = h" by (rule length_unflatten)
  moreover have "\<forall>row \<in> set (unflatten h w out). length row = w"
    using unflatten_rows[of out h w] lo lq by simp
  ultimately show ?thesis by blast
qed

text \<open>
  C6.  For an image and any two displacement fields, \<open>warp_image\<close> returns an array of
  exactly the image's shape in which every pixel is defined: a pixel that the
  interpolation left undefined holds the value of the same pixel of the input image, every
  other pixel holds the interpolated value.
\<close>

theorem warp_fills_undefined:
  assumes "resize_ok resize" "griddata_ok griddata"
    and "is_image h w img" "is_image hu wu u" "is_image hv wv v"
  shows "\<exists>raw out. warp_interp resize griddata img u v = Inr raw
           \<and> warp_image resize griddata img u v = Inr out
           \<and> shape out = (h, w)
           \<and> (\<forall>r<h. \<forall>c<w.
                 out ! r ! c = (case raw ! r ! c of None \<Rightarrow> img ! r ! c | Some y \<Rightarrow> y))"
proof -
  obtain raw where raw: "warp_interp resize griddata img u v = Inr raw"
    and lr: "length raw = h" "\<And>row. row \<in> set raw \<Longrightarrow> length row = w"
    using warp_interp_total[OF assms] by blast
  have out: "warp_image resize griddata img u v = Inr (fill_nan raw img)"
    by (simp add: warp_image_def raw)
  have "is_image h w (fill_nan raw img)"
    using lr assms(3) by (rule fill_nan_image(1))
  then have "shape (fill_nan raw img) = (h, w)" by (rule is_image_shape)
  moreover have "\<forall>r<h. \<forall>c<w. fill_nan raw img ! r ! c =
      (case raw ! r ! c of None \<Rightarrow> img ! r ! c | Some y \<Rightarrow> y)"
    using fill_nan_image(2)[OF lr assms(3)] by blast
  ultimately show ?thesis using raw out by blast
qed

theorem warp_fills_undefined_witness:
  "\<exists>raw out. warp_interp nearest_resize lookup_griddata [[1, 2, 3], [4, 5, 6]] [[1]] [[0]] = Inr raw
     \<and> warp_image nearest_resize lookup_griddata [[1, 2, 3], [4, 5, 6]] [[1]] [[0]] = Inr out
     \<and> shape out = (2, 3)
     \<and> (\<forall>r<2. \<forall>c<3.
           out ! r ! c =
             (case raw ! r ! c of None \<Rightarrow> [[1, 2, 3], [4, 5, 6]] ! r ! c | Some y \<Rightarrow> y))"
proof -
  have i: "is_image 2 3 [[1, 2, 3], [4, 5, 6 :: rat]]"
    and u: "is_image 1 1 [[1 :: rat]]" and v: "is_image 1 1 [[0 :: rat]]"
    by (simp_all add: is_image_def)
  show ?thesis
    using warp_fills_undefined[OF resize_ok_nearest griddata_ok_lookup i u v] by simp
qed

text \<open>
  C7.  Before sampling, \<open>warp_image\<close> resizes \<open>u\<close> and \<open>v\<close> to the image's shape,
  multiplies the resized \<open>u\<close> by image width / width of \<open>u\<close> and the resized \<open>v\<close> by
  image height / height of \<open>v\<close>, and samples pixel \<open>(r, c)\<close> at the grid point shifted by
  these values; for fields of half the image's height and width the shift of every pixel
  is twice the resized field.
\<close>

theorem warp_rescale_law:
  assumes "is_image h w img" "is_image hu wu u" "is_image hv wv v"
    and "resize u (w, h) = Inr ru" "resize v (w, h) = Inr rv"
    and "is_image h w ru" "is_image h w rv"
  shows "warp_fields resize img u v =
           Inr (map (map (\<lambda>x. x * (of_nat w / of_nat wu))) ru,
                map (map (\<lambda>x. x * (of_nat h / of_nat hv))) rv)
       \<and> (\<exists>xq yq. warp_queries resize img u v = Inr (xq, yq)
             \<and> (\<forall>r<h. \<forall>c<w.
                   xq ! (r * w + c) = of_nat c + ru ! r ! c * (of_nat w / of_nat wu)
                 \<and> yq ! (r * w + c) = of_nat r + rv ! r ! c * (of_nat h / of_nat hv))
             \<and> (w = 2 * wu \<and> h = 2 * hv \<longrightarrow>
                  (\<forall>r<h. \<forall>c<w.
                     xq ! (r * w + c) = of_nat c + 2 * ru ! r ! c
                   \<and> yq ! (r * w + c) = of_nat r + 2 * rv ! r ! c)))"
proof -
  obtain xq yq where q: "warp_queries resize img u v = Inr (xq, yq)"
    and "length xq = h * w" "length yq = h * w"
    and px: "\<And>r c. r < h \<Longrightarrow> c < w \<Longrightarrow>
                 xq ! (r * w + c) = of_nat c + ru ! r ! c * (of_nat w / of_nat wu)
               \<and> yq ! (r * w + c) = of_nat r + rv ! r ! c * (of_nat h / of_nat hv)"
    using warp_queries_eq[where resize = resize, OF assms] by blast
  have pos: "0 < wu" "0 < hv" using assms(2,3) by (simp_all add: is_image_def)
  have dbl: "xq ! (r * w + c) = of_nat c + 2 * ru ! r ! c
           \<and> yq ! (r * w + c) = of_nat r + 2 * rv ! r ! c"
    if "w = 2 * wu" "h = 2 * hv" "r < h" "c < w" for r c
  proof -
    have "(of_nat w :: rat) / of_nat wu = 2" "(of_nat h :: rat) / of_nat hv = 2"
      using pos that(1,2) by simp_all
    then show ?thesis using px[OF that(3,4)] by simp
  qed
  show ?thesis
    using warp_fields_eq[where resize = resize, OF assms(1,2,3,4,5)] q px dbl by blast
qed

theorem warp_rescale_law_witness:
  "warp_fields nearest_resize [[1, 2, 3, 4], [4, 5, 6, 7]] [[1, 1 / 2]] [[1, 0]] =
     Inr ([[2, 2, 1, 1], [2, 2, 1, 1]], [[2, 2, 0, 0], [2, 2, 0, 0]])
   \<and> warp_queries nearest_resize [[1, 2, 3, 4], [4, 5, 6, 7]] [[1, 1 / 2]] [[1, 0]] =
     Inr ([2, 3, 3, 4, 2, 3, 3, 4], [2, 2, 0, 0, 3, 3, 1, 1])"
proof -
  have i: "is_image 2 4 [[1, 2, 3, 4], [4, 5, 6, 7 :: rat]]"
    and u: "is_image 1 2 [[1, 1 / 2 :: rat]]" and v: "is_image 1 2 [[1, 0 :: rat]]"
    and iu: "is_image 2 4 [[1, 1, 1 / 2, 1 / 2], [1, 1, 1 / 2, 1 / 2 :: rat]]"
    and iv: "is_image 2 4 [[1, 1, 0, 0], [1, 1, 0, 0 :: rat]]"
    by (simp_all add: is_image_def)
  have ru: "nearest_resize [[1, 1 / 2]] (4, 2) = Inr [[1, 1, 1 / 2, 1 / 2], [1, 1, 1 / 2, 1 / 2]]"
    by code_simp
  have rv: "nearest_resize [[1, 0]] (4, 2) = Inr [[1, 1, 0, 0], [1, 1, 0, 0]]"
    by code_simp
  note t = warp_rescale_law[where resize = nearest_resize, OF i u v ru rv iu iv]
  have f: "warp_fields nearest_resize [[1, 2, 3, 4], [4, 5, 6, 7]] [[1, 1 / 2]] [[1, 0]] =
     Inr ([[2, 2, 1, 1], [2, 2, 1, 1]], [[2, 2, 0, 0], [2, 2, 0, 0]])"
    using t by simp
  have q: "warp_queries nearest_resize [[1, 2, 3, 4], [4, 5, 6, 7]] [[1, 1 / 2]] [[1, 0]] =
     Inr ([2, 3, 3, 4, 2, 3, 3, 4], [2, 2, 0, 0, 3, 3, 1, 1])"
    by code_simp
  show ?thesis using f q by simp
qed

lemma add_zero_list:
  assumes "length gx = length zs" "\<And>z. z \<in> set zs \<Longrightarrow> z = (0::rat)"
  shows "map (\<lambda>(x, y). x + y) (zip gx zs) = gx"
proof (rule nth_equalityI)
  show "length (map (\<lambda>(x, y). x + y) (zip gx zs)) = length gx" using assms(1) by simp
  fix i assume "i < length (map (\<lambda>(x, y). x + y) (zip gx zs))"
  then have i: "i < length gx" "i < length zs" using assms(1) by simp_all
  then have "zs ! i = 0" using assms(2) by simp
  then show "map (\<lambda>(x, y). x + y) (zip gx zs) ! i = gx ! i" using i by simp
qed

lemma concat_scaled_zeros:
  "z \<in> set (concat (map (map (\<lambda>x. x * f)) (zeros (h, w)))) \<Longrightarrow> z = 0"
  by (auto simp: zeros_def)

text \<open>
  C3.  With all-zero displacement fields of the image's shape, \<open>warp_image\<close> returns
  exactly the input image: the fields stay zero, the query points are the grid points,
  and an interpolation that is exact at its data points leaves nothing to fill.
\<close>

theorem warp_identity:
  assumes "is_image h w img"
    and "resize (zeros (h, w)) (w, h) = Inr (zeros (h, w))"
    and "griddata (grid_points img) (concat img) (grid_points img) = Inr (map Some (concat img))"
  shows "warp_image resize griddata img (zeros (shape img)) (zeros (shape img)) = Inr img"
proof -
  let ?z = "zeros (h, w)"
  have hw: "0 < h" "0 < w" using assms(1) by (simp_all add: is_image_def)
  have sh: "shape img = (h, w)" using assms(1) by (rule is_image_shape)
  have iz: "is_image h w ?z" using hw by (rule is_image_zeros)
  have f: "warp_fields resize img ?z ?z =
      Inr (map (map (\<lambda>x. x * (of_nat w / of_nat w))) ?z,
           map (map (\<lambda>x. x * (of_nat h / of_nat h))) ?z)"
    using warp_fields_eq[where resize = resize, OF assms(1) iz iz assms(2) assms(2)] .
  have lz: "length (concat (map (map (\<lambda>x. x * k)) ?z)) = h * w" for k :: rat
    using length_concat_image[OF is_image_map_map[OF iz]] .
  have lg: "length (fst (grid_points img)) = h * w" "length (snd (grid_points img)) = h * w"
    using grid_points_length[OF assms(1)] by simp_all
  have x: "map (\<lambda>(x, y). x + y)
             (zip (fst (grid_points img)) (concat (map (map (\<lambda>x. x * k)) ?z)))
           = fst (grid_points img)" for k :: rat
    using lg lz concat_scaled_zeros by (intro add_zero_list) simp_all
  have y: "map (\<lambda>(x, y). x + y)
             (zip (snd (grid_points img)) (concat (map (map (\<lambda>x. x * k)) ?z)))
           = snd (grid_points img)" for k :: rat
    using lg lz concat_scaled_zeros by (intro add_zero_list) simp_all
  have q: "warp_queries resize img ?z ?z = Inr (grid_points img)"
    using lg lz by (simp add: warp_queries_def f np_add1_same_length x y)
  have c: "map Some (concat img) = concat (map (map Some) img)"
    by (simp add: map_concat)
  have rows: "\<And>row. row \<in> set (map (map Some) img) \<Longrightarrow> length row = w"
    using is_image_rows[OF assms(1)] by auto
  have len: "length (map (map Some) img) = h" using assms(1) by (simp add: is_image_def)
  have un: "unflatten h w (map Some (concat img)) = map (map Some) img"
    unfolding c using len rows by (rule unflatten_concat)
  have interp: "warp_interp resize griddata img ?z ?z = Inr (map (map Some) img)"
    using length_concat_image[OF assms(1)]
    by (simp add: warp_interp_def q assms(3) reshape2_def sh un)
  have "fill_nan (map (map Some) img) img = img"
  proof (rule tabulate_eqI[of h w])
    show "is_image h w (fill_nan (map (map Some) img) img)"
      using len rows assms(1) by (rule fill_nan_image(1))
    show "is_image h w img" by (rule assms(1))
    fix i j assume ij: "i < h" "j < w"
    have "map (map Some) img ! i ! j = Some (img ! i ! j)"
      using assms(1) ij by (simp add: is_image_def list_all_length)
    then show "fill_nan (map (map Some) img) img ! i ! j = img ! i ! j"
      using fill_nan_image(2)[OF len rows assms(1) ij] by simp
  qed
  then show ?thesis
    by (simp add: warp_image_def sh interp)
qed

theorem warp_identity_witness:
  "warp_image nearest_resize lookup_griddata [[1, 2, 3], [4, 5, 6]]
      (zeros (shape [[1, 2, 3], [4, 5, 6 :: rat]])) (zeros (shape [[1, 2, 3], [4, 5, 6 :: rat]]))
     = Inr [[1, 2, 3], [4, 5, 6]]"
proof -
  have i: "is_image 2 3 [[1, 2, 3], [4, 5, 6 :: rat]]"
    by (simp add: is_image_def)
  have r: "nearest_resize (zeros (2, 3)) (3, 2) = Inr (zeros (2, 3))"
    by code_simp
  have g: "lookup_griddata (grid_points [[1, 2, 3], [4, 5, 6]]) (concat [[1, 2, 3], [4, 5, 6]])
             (grid_points [[1, 2, 3], [4, 5, 6]]) = Inr (map Some (concat [[1, 2, 3], [4, 5, 6]]))"
    by code_simp
  show ?thesis
    using warp_identity[where resize = nearest_resize and griddata = lookup_griddata, OF i r g] .
qed

section \<open>The pyramidal refiner\<close>




























text \<open>
  The excluded case does occur: a second image with the transposed shape of a target that
  is not square is not resized, and the first Lucas-Kanade step at full resolution raises.
\<close>

lemma transposed_second_image:
  "shape [[1, 2], [4, 5], [6, 7], [8, 9 :: rat]] = IMAGE_SIZE [[1, 2, 3, 4], [4, 5, 6, 7]] 1
   \<and> lucas_kanade_optical_flow nearest_resize lookup_griddata
        [[1, 2, 3, 4], [4, 5, 6, 7]] [[1, 2], [4, 5], [6, 7], [8, 9]] 3 1 1 = Inl ValueError"
  by code_simp

end
